theory Spec2Isabelle
  imports Main "HOL-Library.Word"
begin

unbundle bit_operations_syntax

section \<open>Data model\<close>

text \<open>
  Pointers to thread control blocks are addresses (\<open>tid\<close>); a C pointer that may be
  \<open>NULL\<close> is an \<open>option\<close>.  Every synchronisation primitive owns at most one
  \<open>struct wait_queue\<close>, obtained from \<open>malloc\<close>; its address is a \<open>qid\<close> naming the
  owning object, so blocks of different primitives never alias.  The queue itself (head,
  tail, count and the next/prev links of the queued threads) is kept as the list of the
  queued threads, head first.
\<close>

type_synonym tid = nat

datatype qid = MutexQ nat | CondQ nat | SemQ nat

datatype uthread_err =
    UTHREAD_SUCCESS | UTHREAD_EINVAL | UTHREAD_ENOMEM | UTHREAD_EBUSY | UTHREAD_EDEADLK
  | UTHREAD_EPERM | UTHREAD_ETIMEDOUT | UTHREAD_EAGAIN | UTHREAD_ESRCH

fun errno :: "uthread_err \<Rightarrow> int" where
  "errno UTHREAD_SUCCESS = 0"
| "errno UTHREAD_EINVAL = 22"
| "errno UTHREAD_ENOMEM = 12"
| "errno UTHREAD_EBUSY = 16"
| "errno UTHREAD_EDEADLK = 35"
| "errno UTHREAD_EPERM = 1"
| "errno UTHREAD_ETIMEDOUT = 110"
| "errno UTHREAD_EAGAIN = 11"
| "errno UTHREAD_ESRCH = 3"

datatype uthread_state_t =
    UTHREAD_STATE_READY | UTHREAD_STATE_RUNNING | UTHREAD_STATE_BLOCKED
  | UTHREAD_STATE_TERMINATED | UTHREAD_STATE_JOINABLE

datatype uthread_mutex_type =
    UTHREAD_MUTEX_NORMAL | UTHREAD_MUTEX_RECURSIVE | UTHREAD_MUTEX_ERRORCHECK

text \<open>
  The saved machine context of a thread is the place where it continues: in application
  code (\<open>User\<close>), or inside a library function just after a call of
  \<open>scheduler_schedule\<close>.  The constructors name these places by function and carry the
  function's live local variables.
\<close>

datatype context_t =
    User
  | At_entry
  | In_mutex_lock nat
  | In_cond_wait nat nat
  | In_cond_wait_relock nat nat
  | In_cond_timedwait nat nat "64 word"
  | In_cond_timedwait_relock nat nat uthread_err
  | In_sem_wait nat
  | In_sem_timedwait nat "64 word"
  | In_join tid bool
  | In_yield
  | In_exit

record uthread_internal =
  t_context :: context_t
  state :: uthread_state_t
  stack_size :: nat
  start_routine :: "nat option"
  arg :: nat
  retval :: nat
  priority :: int
  nice :: int
  weight :: int
  vruntime :: "64 word"
  timeslice_remaining :: "64 word"
  waiting_on :: "tid option"
  blocked_queue :: "qid option"
  t_next :: "tid option"
  t_prev :: "tid option"
  rb_left :: "tid option"
  rb_right :: "tid option"
  rb_parent :: "tid option"
  rb_color :: int
  detached :: bool
  exited :: bool
  joiner :: "tid option"

record uthread_mutex =
  m_lock :: int
  m_owner :: "tid option"
  m_waiters :: "qid option"
  m_type :: uthread_mutex_type
  m_recursion_count :: int
  m_initialized :: bool

record uthread_cond =
  c_waiters :: "qid option"
  c_signal_seq :: "64 word"
  c_initialized :: bool

record uthread_sem =
  s_value :: "32 word"
  s_waiters :: "qid option"
  s_initialized :: bool

text \<open>What \<open>calloc\<close> returns for a thread control block, and zeroed primitives.\<close>

definition tcb0 :: uthread_internal where
  "tcb0 = \<lparr>t_context = User, state = UTHREAD_STATE_READY, stack_size = 0,
            start_routine = None, arg = 0, retval = 0, priority = 0, nice = 0, weight = 0,
            vruntime = 0, timeslice_remaining = 0, waiting_on = None, blocked_queue = None,
            t_next = None, t_prev = None, rb_left = None, rb_right = None, rb_parent = None,
            rb_color = 0, detached = False, exited = False, joiner = None\<rparr>"

definition mutex0 :: uthread_mutex where
  "mutex0 = \<lparr>m_lock = 0, m_owner = None, m_waiters = None, m_type = UTHREAD_MUTEX_NORMAL,
              m_recursion_count = 0, m_initialized = False\<rparr>"

definition cond0 :: uthread_cond where
  "cond0 = \<lparr>c_waiters = None, c_signal_seq = 0, c_initialized = False\<rparr>"

definition sem0 :: uthread_sem where
  "sem0 = \<lparr>s_value = 0, s_waiters = None, s_initialized = False\<rparr>"

text \<open>
  The process-wide state: \<open>g_scheduler.current\<close>, \<open>g_scheduler.initialized\<close>, the
  thread control blocks, the run queue of the active policy, the wait queues and the
  primitives, each by address.  The run queue is the collection of threads handed to
  \<open>ops->enqueue\<close> and not yet returned by \<open>ops->dequeue\<close>; which of them a policy
  returns next is an input of \<open>scheduler_schedule\<close>.  \<open>allocated\<close> holds the
  addresses of the thread control blocks obtained from \<open>calloc\<close> and not yet handed
  to \<open>free\<close>.
\<close>

record sys =
  current :: "tid option"
  sched_initialized :: bool
  threads :: "tid \<Rightarrow> uthread_internal"
  allocated :: "tid set"
  runq :: "tid list"
  wqs :: "qid \<Rightarrow> tid list"
  mutexes :: "nat \<Rightarrow> uthread_mutex"
  conds :: "nat \<Rightarrow> uthread_cond"
  sems :: "nat \<Rightarrow> uthread_sem"

text \<open>
  The state \<open>uthread_init\<close> leaves: the main thread (here at address 1) is running,
  nothing is queued, no primitive is initialised.
\<close>

definition sys0 :: sys where
  "sys0 = \<lparr>current = Some 1, sched_initialized = True,
            threads = (\<lambda>_. tcb0)(1 := tcb0\<lparr>state := UTHREAD_STATE_RUNNING, priority := 16,
                                               weight := 1024\<rparr>),
            allocated = {1}, runq = [], wqs = (\<lambda>_. []), mutexes = (\<lambda>_. mutex0), conds = (\<lambda>_. cond0),
            sems = (\<lambda>_. sem0)\<rparr>"

section \<open>Wait queues and the scheduler core (scheduler.c)\<close>

definition upd_thread :: "tid \<Rightarrow> (uthread_internal \<Rightarrow> uthread_internal) \<Rightarrow> sys \<Rightarrow> sys" where
  "upd_thread t f s = s\<lparr>threads := (threads s)(t := f (threads s t))\<rparr>"

definition upd_mutex :: "nat \<Rightarrow> (uthread_mutex \<Rightarrow> uthread_mutex) \<Rightarrow> sys \<Rightarrow> sys" where
  "upd_mutex m f s = s\<lparr>mutexes := (mutexes s)(m := f (mutexes s m))\<rparr>"

definition upd_cond :: "nat \<Rightarrow> (uthread_cond \<Rightarrow> uthread_cond) \<Rightarrow> sys \<Rightarrow> sys" where
  "upd_cond c f s = s\<lparr>conds := (conds s)(c := f (conds s c))\<rparr>"

definition upd_sem :: "nat \<Rightarrow> (uthread_sem \<Rightarrow> uthread_sem) \<Rightarrow> sys \<Rightarrow> sys" where
  "upd_sem x f s = s\<lparr>sems := (sems s)(x := f (sems s x))\<rparr>"

definition wait_queue_init :: "qid option \<Rightarrow> sys \<Rightarrow> sys" where
  "wait_queue_init wq s = (case wq of None \<Rightarrow> s | Some q \<Rightarrow> s\<lparr>wqs := (wqs s)(q := [])\<rparr>)"

definition wait_queue_add :: "qid option \<Rightarrow> tid option \<Rightarrow> sys \<Rightarrow> sys" where
  "wait_queue_add wq thread s =
     (case wq of None \<Rightarrow> s
      | Some q \<Rightarrow>
         (case thread of None \<Rightarrow> s
          | Some t \<Rightarrow>
             upd_thread t (\<lambda>x. x\<lparr>blocked_queue := Some q\<rparr>)
               (s\<lparr>wqs := (wqs s)(q := wqs s q @ [t])\<rparr>)))"

definition wait_queue_remove :: "qid option \<Rightarrow> sys \<Rightarrow> tid option \<times> sys" where
  "wait_queue_remove wq s =
     (case wq of None \<Rightarrow> (None, s)
      | Some q \<Rightarrow>
         (case wqs s q of [] \<Rightarrow> (None, s)
          | t # rest \<Rightarrow>
             (Some t, upd_thread t (\<lambda>x. x\<lparr>blocked_queue := None\<rparr>)
                        (s\<lparr>wqs := (wqs s)(q := rest)\<rparr>))))"

definition wait_queue_remove_specific :: "qid option \<Rightarrow> tid option \<Rightarrow> sys \<Rightarrow> tid option \<times> sys" where
  "wait_queue_remove_specific wq thread s =
     (case wq of None \<Rightarrow> (None, s)
      | Some q \<Rightarrow>
         (case thread of None \<Rightarrow> (None, s)
          | Some t \<Rightarrow>
             if blocked_queue (threads s t) \<noteq> Some q then (None, s)
             else (Some t, upd_thread t (\<lambda>x. x\<lparr>blocked_queue := None\<rparr>)
                             (s\<lparr>wqs := (wqs s)(q := remove1 t (wqs s q))\<rparr>))))"

definition wait_queue_empty :: "qid option \<Rightarrow> sys \<Rightarrow> bool" where
  "wait_queue_empty wq s = (case wq of None \<Rightarrow> True | Some q \<Rightarrow> wqs s q = [])"

text \<open>\<open>g_scheduler.ops->enqueue\<close> and \<open>g_scheduler.ops->remove\<close> of the active policy.\<close>

definition ops_enqueue :: "tid \<Rightarrow> sys \<Rightarrow> sys" where
  "ops_enqueue t s = s\<lparr>runq := runq s @ [t]\<rparr>"

definition ops_remove :: "tid \<Rightarrow> sys \<Rightarrow> sys" where
  "ops_remove t s = s\<lparr>runq := remove1 t (runq s)\<rparr>"

definition scheduler_unblock :: "tid option \<Rightarrow> sys \<Rightarrow> sys" where
  "scheduler_unblock thread s =
     (case thread of None \<Rightarrow> s
      | Some t \<Rightarrow> ops_enqueue t (upd_thread t (\<lambda>x. x\<lparr>state := UTHREAD_STATE_READY\<rparr>) s))"

definition wait_queue_wake_one :: "qid option \<Rightarrow> sys \<Rightarrow> sys" where
  "wait_queue_wake_one wq s =
     (case wq of None \<Rightarrow> s
      | Some q \<Rightarrow>
         (case wait_queue_remove wq s of
            (None, s') \<Rightarrow> s'
          | (Some t, s') \<Rightarrow> scheduler_unblock (Some t) s'))"

text \<open>
  \<open>scheduler_schedule\<close>.  \<open>nxt\<close> is what \<open>ops->dequeue\<close> returns: a queued thread, or
  \<open>NULL\<close> when nothing is queued.  With \<open>NULL\<close> the function switches to
  \<open>g_scheduler.idle_thread\<close>, whose context \<open>uthread_init\<close> only zeroes: there is no
  successor state.  The result is \<open>None\<close> as well when \<open>nxt\<close> is not a possible result of
  \<open>ops->dequeue\<close>.  When the dequeued thread is the caller the function returns at once;
  otherwise the caller stops here and \<open>nxt\<close> continues from its saved context.
\<close>

definition scheduler_schedule :: "tid option \<Rightarrow> sys \<Rightarrow> sys option" where
  "scheduler_schedule nxt s =
     (case nxt of None \<Rightarrow> None
      | Some n \<Rightarrow>
         if n \<notin> set (runq s) then None
         else
           let s1 = s\<lparr>runq := remove1 n (runq s)\<rparr> in
           if current s1 = Some n then Some s1
           else
             let s2 = (case current s1 of None \<Rightarrow> s1
                       | Some c \<Rightarrow>
                          if state (threads s1 c) = UTHREAD_STATE_RUNNING
                          then upd_thread c (\<lambda>x. x\<lparr>state := UTHREAD_STATE_READY\<rparr>) s1
                          else s1)
             in Some ((upd_thread n (\<lambda>x. x\<lparr>state := UTHREAD_STATE_RUNNING\<rparr>) s2)
                        \<lparr>current := Some n\<rparr>))"

text \<open>
  A library function runs until it returns to the application (\<open>Some\<close> of its error code
  and of what it stored through an out-parameter) or until it stops inside
  \<open>scheduler_schedule\<close> (\<open>None\<close>).  Timer signals are not delivered inside the library
  functions, so \<open>preemption_disable\<close> and \<open>preemption_enable\<close> have no effect on this
  state.
\<close>

datatype outv = NoOut | OutInt int | OutPtr nat

type_synonym seg = "(uthread_err \<times> outv) option \<times> sys"

definition returns :: "uthread_err \<Rightarrow> sys \<Rightarrow> seg option" where
  "returns e s =
     Some (Some (e, NoOut),
           (case current s of None \<Rightarrow> s | Some t \<Rightarrow> upd_thread t (\<lambda>x. x\<lparr>t_context := User\<rparr>) s))"

definition stops_at :: "context_t \<Rightarrow> tid option \<Rightarrow> sys \<Rightarrow> seg option" where
  "stops_at k nxt s =
     (case current s of None \<Rightarrow> None
      | Some t \<Rightarrow>
         (case scheduler_schedule nxt (upd_thread t (\<lambda>x. x\<lparr>t_context := k\<rparr>) s) of
            None \<Rightarrow> None
          | Some s' \<Rightarrow> Some (None, s')))"

section \<open>Mutex (mutex.c)\<close>

text \<open>
  The lazy allocation of the wait queue that \<open>uthread_mutex_lock\<close> and
  \<open>uthread_mutex_trylock\<close> start with; \<open>mem\<close> tells whether \<open>malloc\<close> succeeds.
  \<open>None\<close> is the early return of \<open>UTHREAD_ENOMEM\<close>.
\<close>

definition mutex_lazy_init :: "bool \<Rightarrow> nat \<Rightarrow> sys \<Rightarrow> sys + sys" where
  "mutex_lazy_init mem m s =
     (if \<not> m_initialized (mutexes s m) then
        (if \<not> mem then Inl (upd_mutex m (\<lambda>x. x\<lparr>m_waiters := None\<rparr>) s)
         else Inr (upd_mutex m (\<lambda>x. x\<lparr>m_initialized := True\<rparr>)
                    (wait_queue_init (Some (MutexQ m))
                      (upd_mutex m (\<lambda>x. x\<lparr>m_waiters := Some (MutexQ m)\<rparr>) s))))
      else Inr s)"

definition mutex_acquire :: "nat \<Rightarrow> sys \<Rightarrow> sys" where
  "mutex_acquire m s =
     upd_mutex m (\<lambda>x. x\<lparr>m_lock := 1, m_owner := current s, m_recursion_count := 1\<rparr>) s"

text \<open>
  The loop \<open>while (mutex->lock != 0)\<close> of \<open>uthread_mutex_lock\<close>, from its head to the
  return or to the next \<open>scheduler_schedule\<close>.  Without a current thread the loop body does
  nothing and the loop never ends.
\<close>

definition mutex_lock_loop :: "tid option \<Rightarrow> nat \<Rightarrow> sys \<Rightarrow> seg option" where
  "mutex_lock_loop nxt m s =
     (if m_lock (mutexes s m) \<noteq> 0 then
        (case current s of None \<Rightarrow> None
         | Some t \<Rightarrow>
            stops_at (In_mutex_lock m) nxt
              (wait_queue_add (m_waiters (mutexes s m)) (Some t)
                 (upd_thread t (\<lambda>x. x\<lparr>state := UTHREAD_STATE_BLOCKED\<rparr>) s)))
      else returns UTHREAD_SUCCESS (mutex_acquire m s))"

definition uthread_mutex_lock :: "bool \<Rightarrow> tid option \<Rightarrow> nat option \<Rightarrow> sys \<Rightarrow> seg option" where
  "uthread_mutex_lock mem nxt mutex s =
     (case mutex of None \<Rightarrow> returns UTHREAD_EINVAL s
      | Some m \<Rightarrow>
         (case mutex_lazy_init mem m s of
            Inl s' \<Rightarrow> returns UTHREAD_ENOMEM s'
          | Inr s' \<Rightarrow>
             if m_owner (mutexes s' m) = current s' \<and> m_type (mutexes s' m) = UTHREAD_MUTEX_RECURSIVE
             then returns UTHREAD_SUCCESS
                    (upd_mutex m (\<lambda>x. x\<lparr>m_recursion_count := m_recursion_count x + 1\<rparr>) s')
             else if m_owner (mutexes s' m) = current s' \<and> m_type (mutexes s' m) = UTHREAD_MUTEX_ERRORCHECK
             then returns UTHREAD_EDEADLK s'
             else mutex_lock_loop nxt m s'))"

definition uthread_mutex_trylock :: "bool \<Rightarrow> nat option \<Rightarrow> sys \<Rightarrow> seg option" where
  "uthread_mutex_trylock mem mutex s =
     (case mutex of None \<Rightarrow> returns UTHREAD_EINVAL s
      | Some m \<Rightarrow>
         (case mutex_lazy_init mem m s of
            Inl s' \<Rightarrow> returns UTHREAD_ENOMEM s'
          | Inr s' \<Rightarrow>
             if m_owner (mutexes s' m) = current s' \<and> m_type (mutexes s' m) = UTHREAD_MUTEX_RECURSIVE
             then returns UTHREAD_SUCCESS
                    (upd_mutex m (\<lambda>x. x\<lparr>m_recursion_count := m_recursion_count x + 1\<rparr>) s')
             else if m_owner (mutexes s' m) = current s' \<and> m_type (mutexes s' m) = UTHREAD_MUTEX_ERRORCHECK
             then returns UTHREAD_EBUSY s'
             else if m_lock (mutexes s' m) = 0
             then returns UTHREAD_SUCCESS (mutex_acquire m s')
             else returns UTHREAD_EBUSY s'))"

definition mutex_release :: "nat \<Rightarrow> sys \<Rightarrow> sys" where
  "mutex_release m s =
     (let s1 = upd_mutex m (\<lambda>x. x\<lparr>m_lock := 0, m_owner := None, m_recursion_count := 0\<rparr>) s
      in if m_waiters (mutexes s1 m) \<noteq> None \<and> \<not> wait_queue_empty (m_waiters (mutexes s1 m)) s1
         then wait_queue_wake_one (m_waiters (mutexes s1 m)) s1
         else s1)"

definition uthread_mutex_unlock :: "nat option \<Rightarrow> sys \<Rightarrow> seg option" where
  "uthread_mutex_unlock mutex s =
     (case mutex of None \<Rightarrow> returns UTHREAD_EINVAL s
      | Some m \<Rightarrow>
         if \<not> m_initialized (mutexes s m) then returns UTHREAD_EINVAL s
         else if m_type (mutexes s m) = UTHREAD_MUTEX_ERRORCHECK \<and> m_owner (mutexes s m) \<noteq> current s
         then returns UTHREAD_EPERM s
         else if m_type (mutexes s m) = UTHREAD_MUTEX_RECURSIVE \<and> m_owner (mutexes s m) = current s
         then
           (let s1 = upd_mutex m (\<lambda>x. x\<lparr>m_recursion_count := m_recursion_count x - 1\<rparr>) s
            in if m_recursion_count (mutexes s1 m) > 0 then returns UTHREAD_SUCCESS s1
               else returns UTHREAD_SUCCESS (mutex_release m s1))
         else returns UTHREAD_SUCCESS (mutex_release m s))"


section \<open>Thread creation (uthread.c)\<close>

datatype uthread_detachstate_t = UTHREAD_CREATE_JOINABLE | UTHREAD_CREATE_DETACHED

record uthread_attr =
  a_stack_size :: nat
  a_priority :: int
  a_nice :: int
  a_detach_state :: uthread_detachstate_t
  a_name :: string

definition UTHREAD_STACK_DEFAULT :: nat where "UTHREAD_STACK_DEFAULT = 64 * 1024"
definition UTHREAD_STACK_MIN :: nat where "UTHREAD_STACK_MIN = 16 * 1024"
definition UTHREAD_STACK_MAX :: nat where "UTHREAD_STACK_MAX = 8 * 1024 * 1024"
definition UTHREAD_PRIORITY_DEFAULT :: int where "UTHREAD_PRIORITY_DEFAULT = 16"
definition CFS_NICE_0_WEIGHT :: int where "CFS_NICE_0_WEIGHT = 1024"

definition weight_table :: "int list" where
  "weight_table =
     [88761, 71755, 56483, 46273, 36291,
      29154, 23254, 18705, 14949, 11916,
      9548, 7620, 6100, 4904, 3906,
      3121, 2501, 1991, 1586, 1277,
      1024, 820, 655, 526, 423,
      335, 272, 215, 172, 137,
      110, 87, 70, 56, 45,
      36, 29, 23, 18, 15]"

definition nice_to_weight :: "int \<Rightarrow> int" where
  "nice_to_weight n =
     (let n1 = (if n < -20 then -20 else n); n2 = (if n1 > 19 then 19 else n1)
      in weight_table ! nat (n2 + 20))"

definition uthread_attr_init :: uthread_attr where
  "uthread_attr_init =
     \<lparr>a_stack_size = UTHREAD_STACK_DEFAULT, a_priority = UTHREAD_PRIORITY_DEFAULT, a_nice = 0,
      a_detach_state = UTHREAD_CREATE_JOINABLE, a_name = []\<rparr>"

definition uthread_attr_setstacksize :: "uthread_attr option \<Rightarrow> nat \<Rightarrow> uthread_err \<times> uthread_attr option" where
  "uthread_attr_setstacksize attr sz =
     (case attr of None \<Rightarrow> (UTHREAD_EINVAL, attr)
      | Some a \<Rightarrow>
         if sz < UTHREAD_STACK_MIN \<or> sz > UTHREAD_STACK_MAX then (UTHREAD_EINVAL, attr)
         else (UTHREAD_SUCCESS, Some (a\<lparr>a_stack_size := sz\<rparr>)))"

text \<open>\<open>thread_alloc\<close>: a zeroed block with the three defaults the function sets.\<close>

definition thread_alloc :: uthread_internal where
  "thread_alloc = tcb0\<lparr>state := UTHREAD_STATE_READY, priority := UTHREAD_PRIORITY_DEFAULT,
                       weight := CFS_NICE_0_WEIGHT\<rparr>"

definition UTHREAD_GUARD_SIZE :: nat where "UTHREAD_GUARD_SIZE = 4096"
definition SIZE_MAX :: nat where "SIZE_MAX = 2 ^ 64 - 1"
definition UTHREAD_MAX_THREADS :: nat where "UTHREAD_MAX_THREADS = 1024"

text \<open>
  \<open>uthread_create\<close>.  \<open>new\<close> is the block \<open>calloc\<close> returns in \<open>thread_alloc\<close>
  (\<open>None\<close> for \<open>NULL\<close>), \<open>stack_ok\<close> tells whether \<open>thread_setup_stack\<close> obtains
  memory, \<open>thread\<close> whether the out-pointer is non-null.  \<open>thread_setup_stack\<close> maps
  \<open>size + UTHREAD_GUARD_SIZE\<close> bytes, a sum of type \<open>size_t\<close>: when it exceeds
  \<open>SIZE_MAX\<close> the mapping obtained is shorter than the stack, and \<open>context_init\<close>
  writes the first frame outside of it (\<open>None\<close>).  The assertion of \<open>context_init\<close> on
  the stack size aborts the process (\<open>None\<close>).  When the stack is not obtained the block
  goes back to \<open>free\<close>.  \<open>scheduler_add_thread\<close> enters the block into the registry
  \<open>all_threads\<close>, which holds the allocated blocks in \<open>UTHREAD_MAX_THREADS\<close> slots;
  its assertion aborts the process when no slot is free (\<open>None\<close>).  The thread id, the
  name and the statistics are left out.
\<close>

definition uthread_create ::
    "tid option \<Rightarrow> bool \<Rightarrow> bool \<Rightarrow> uthread_attr option \<Rightarrow> nat option \<Rightarrow> nat \<Rightarrow> sys \<Rightarrow> seg option" where
  "uthread_create new stack_ok thread attr start a s =
     (if \<not> sched_initialized s then returns UTHREAD_EINVAL s
      else if \<not> thread \<or> start = None then returns UTHREAD_EINVAL s
      else
        (case new of None \<Rightarrow> returns UTHREAD_ENOMEM s
         | Some t \<Rightarrow>
            let sz = (case attr of None \<Rightarrow> UTHREAD_STACK_DEFAULT
                        | Some at \<Rightarrow> if a_stack_size at \<ge> UTHREAD_STACK_MIN then a_stack_size at
                                     else UTHREAD_STACK_DEFAULT);
                t1 = (case attr of
                        None \<Rightarrow> thread_alloc\<lparr>priority := UTHREAD_PRIORITY_DEFAULT, nice := 0,
                                             detached := False\<rparr>
                      | Some at \<Rightarrow> thread_alloc\<lparr>priority := a_priority at, nice := a_nice at,
                                     detached := (a_detach_state at = UTHREAD_CREATE_DETACHED)\<rparr>);
                t2 = t1\<lparr>weight := nice_to_weight (nice t1)\<rparr>
            in if \<not> stack_ok then returns UTHREAD_ENOMEM s
               else if sz + UTHREAD_GUARD_SIZE > SIZE_MAX then None
               else
                 let t3 = t2\<lparr>stack_size := sz, start_routine := start, arg := a,
                             state := UTHREAD_STATE_READY\<rparr>
                 in if \<not> (stack_size t3 \<ge> UTHREAD_STACK_MIN) then None
                    else if card (allocated s) \<ge> UTHREAD_MAX_THREADS then None
                    else
                      (case returns UTHREAD_SUCCESS
                              (ops_enqueue t (s\<lparr>threads := (threads s)(t := t3\<lparr>t_context := At_entry\<rparr>),
                                                allocated := insert t (allocated s)\<rparr>)) of
                         None \<Rightarrow> None
                       | Some (r, s') \<Rightarrow> Some (Some (UTHREAD_SUCCESS, OutPtr t), s'))))"


definition returns_out :: "uthread_err \<Rightarrow> outv \<Rightarrow> sys \<Rightarrow> seg option" where
  "returns_out e out s =
     Some (Some (e, out),
           (case current s of None \<Rightarrow> s | Some t \<Rightarrow> upd_thread t (\<lambda>x. x\<lparr>t_context := User\<rparr>) s))"

text \<open>The return of a function without result, and the start of a thread's routine.\<close>

definition returns_void :: "sys \<Rightarrow> seg option" where
  "returns_void s =
     Some (None,
           (case current s of None \<Rightarrow> s | Some t \<Rightarrow> upd_thread t (\<lambda>x. x\<lparr>t_context := User\<rparr>) s))"

function wait_queue_wake_all :: "qid option \<Rightarrow> sys \<Rightarrow> sys" where
  "wait_queue_wake_all wq s =
     (case wq of None \<Rightarrow> s
      | Some q \<Rightarrow>
         (case wait_queue_remove (Some q) s of
            (None, s') \<Rightarrow> s'
          | (Some t, s') \<Rightarrow> wait_queue_wake_all (Some q) (scheduler_unblock (Some t) s')))"
  by pat_completeness auto
termination
  by (relation "measure (\<lambda>(wq, s). case wq of None \<Rightarrow> 0 | Some q \<Rightarrow> length (wqs s q))")
     (auto simp: wait_queue_remove_def scheduler_unblock_def ops_enqueue_def upd_thread_def
       split: list.splits)

declare wait_queue_wake_all.simps [simp del]

section \<open>Condition variable (condvar.c)\<close>

definition cond_lazy_init :: "bool \<Rightarrow> nat \<Rightarrow> sys \<Rightarrow> sys + sys" where
  "cond_lazy_init mem c s =
     (if \<not> c_initialized (conds s c) then
        (if \<not> mem then Inl (upd_cond c (\<lambda>x. x\<lparr>c_waiters := None\<rparr>) s)
         else Inr (upd_cond c (\<lambda>x. x\<lparr>c_initialized := True\<rparr>)
                    (wait_queue_init (Some (CondQ c))
                      (upd_cond c (\<lambda>x. x\<lparr>c_waiters := Some (CondQ c)\<rparr>) s))))
      else Inr s)"

text \<open>
  The release of the mutex inside the two wait functions: lock flag and owner are
  cleared (the recursion count is not) and one waiter of the mutex is woken.
\<close>

definition cond_release_mutex :: "nat \<Rightarrow> sys \<Rightarrow> sys" where
  "cond_release_mutex m s =
     (let s1 = upd_mutex m (\<lambda>x. x\<lparr>m_lock := 0, m_owner := None\<rparr>) s
      in if m_waiters (mutexes s1 m) \<noteq> None \<and> \<not> wait_queue_empty (m_waiters (mutexes s1 m)) s1
         then wait_queue_wake_one (m_waiters (mutexes s1 m)) s1
         else s1)"

text \<open>
  The loop \<open>while (mutex->lock != 0)\<close> that reacquires the mutex, followed by the
  acquisition and the return of \<open>rc\<close>; \<open>k\<close> is the place the thread continues from when
  it has to block.
\<close>

definition cond_relock :: "context_t \<Rightarrow> uthread_err \<Rightarrow> tid option \<Rightarrow> nat \<Rightarrow> sys \<Rightarrow> seg option" where
  "cond_relock k rc nxt m s =
     (if m_lock (mutexes s m) \<noteq> 0 then
        (case current s of None \<Rightarrow> None
         | Some t \<Rightarrow>
            stops_at k nxt
              (wait_queue_add (m_waiters (mutexes s m)) (Some t)
                 (upd_thread t (\<lambda>x. x\<lparr>state := UTHREAD_STATE_BLOCKED\<rparr>) s)))
      else returns rc (mutex_acquire m s))"

definition uthread_cond_wait :: "bool \<Rightarrow> tid option \<Rightarrow> nat option \<Rightarrow> nat option \<Rightarrow> sys \<Rightarrow> seg option" where
  "uthread_cond_wait mem nxt cond mutex s =
     (case cond of None \<Rightarrow> returns UTHREAD_EINVAL s
      | Some c \<Rightarrow>
         (case mutex of None \<Rightarrow> returns UTHREAD_EINVAL s
          | Some m \<Rightarrow>
             (case cond_lazy_init mem c s of
                Inl s' \<Rightarrow> returns UTHREAD_ENOMEM s'
              | Inr s' \<Rightarrow>
                 (case current s' of None \<Rightarrow> returns UTHREAD_EINVAL s'
                  | Some t \<Rightarrow>
                     let s1 = upd_thread t (\<lambda>x. x\<lparr>state := UTHREAD_STATE_BLOCKED\<rparr>) s';
                         s2 = wait_queue_add (c_waiters (conds s1 c)) (Some t) s1;
                         s3 = cond_release_mutex m s2
                     in stops_at (In_cond_wait c m) nxt s3))))"

text \<open>
  The loop \<open>while (self->blocked_queue != NULL)\<close> of \<open>uthread_cond_timedwait\<close> with
  the clock reading \<open>now\<close>, and what follows it.
\<close>

definition cond_timedwait_loop :: "64 word \<Rightarrow> tid option \<Rightarrow> nat \<Rightarrow> nat \<Rightarrow> 64 word \<Rightarrow> sys \<Rightarrow> seg option" where
  "cond_timedwait_loop now nxt c m deadline s =
     (case current s of None \<Rightarrow> None
      | Some t \<Rightarrow>
         if blocked_queue (threads s t) \<noteq> None then
           (if now \<ge> deadline then
              cond_relock (In_cond_timedwait_relock c m UTHREAD_ETIMEDOUT) UTHREAD_ETIMEDOUT nxt m
                (snd (wait_queue_remove_specific (c_waiters (conds s c)) (Some t) s))
            else stops_at (In_cond_timedwait c m deadline) nxt s)
         else cond_relock (In_cond_timedwait_relock c m UTHREAD_SUCCESS) UTHREAD_SUCCESS nxt m s)"

definition uthread_cond_timedwait ::
    "bool \<Rightarrow> 64 word \<Rightarrow> tid option \<Rightarrow> nat option \<Rightarrow> nat option \<Rightarrow> 64 word option \<Rightarrow> sys \<Rightarrow> seg option" where
  "uthread_cond_timedwait mem now nxt cond mutex abstime s =
     (case cond of None \<Rightarrow> returns UTHREAD_EINVAL s
      | Some c \<Rightarrow>
         (case mutex of None \<Rightarrow> returns UTHREAD_EINVAL s
          | Some m \<Rightarrow>
             (case abstime of None \<Rightarrow> returns UTHREAD_EINVAL s
              | Some deadline \<Rightarrow>
                 (case cond_lazy_init mem c s of
                    Inl s' \<Rightarrow> returns UTHREAD_ENOMEM s'
                  | Inr s' \<Rightarrow>
                     (case current s' of None \<Rightarrow> returns UTHREAD_EINVAL s'
                      | Some t \<Rightarrow>
                         let s1 = upd_thread t (\<lambda>x. x\<lparr>state := UTHREAD_STATE_BLOCKED\<rparr>) s';
                             s2 = wait_queue_add (c_waiters (conds s1 c)) (Some t) s1;
                             s3 = cond_release_mutex m s2
                         in cond_timedwait_loop now nxt c m deadline s3)))))"

definition uthread_cond_signal :: "bool \<Rightarrow> nat option \<Rightarrow> sys \<Rightarrow> seg option" where
  "uthread_cond_signal mem cond s =
     (case cond of None \<Rightarrow> returns UTHREAD_EINVAL s
      | Some c \<Rightarrow>
         (case cond_lazy_init mem c s of
            Inl s' \<Rightarrow> returns UTHREAD_ENOMEM s'
          | Inr s' \<Rightarrow>
             let s1 = upd_cond c (\<lambda>x. x\<lparr>c_signal_seq := c_signal_seq x + 1\<rparr>) s'
             in if c_waiters (conds s1 c) \<noteq> None \<and> \<not> wait_queue_empty (c_waiters (conds s1 c)) s1
                then returns UTHREAD_SUCCESS (wait_queue_wake_one (c_waiters (conds s1 c)) s1)
                else returns UTHREAD_SUCCESS s1))"

definition uthread_cond_broadcast :: "bool \<Rightarrow> nat option \<Rightarrow> sys \<Rightarrow> seg option" where
  "uthread_cond_broadcast mem cond s =
     (case cond of None \<Rightarrow> returns UTHREAD_EINVAL s
      | Some c \<Rightarrow>
         (case cond_lazy_init mem c s of
            Inl s' \<Rightarrow> returns UTHREAD_ENOMEM s'
          | Inr s' \<Rightarrow>
             let s1 = upd_cond c (\<lambda>x. x\<lparr>c_signal_seq := c_signal_seq x + 1\<rparr>) s'
             in if c_waiters (conds s1 c) \<noteq> None
                then returns UTHREAD_SUCCESS (wait_queue_wake_all (c_waiters (conds s1 c)) s1)
                else returns UTHREAD_SUCCESS s1))"

section \<open>Semaphore (semaphore.c)\<close>

text \<open>
  \<open>value\<close> is a C \<open>int\<close>: a 32-bit word read as two's complement (\<open>sint\<close>); increment
  and decrement wrap around.
\<close>

definition uthread_sem_init :: "bool \<Rightarrow> nat option \<Rightarrow> int \<Rightarrow> 32 word \<Rightarrow> sys \<Rightarrow> seg option" where
  "uthread_sem_init mem sem pshared v s =
     (case sem of None \<Rightarrow> returns UTHREAD_EINVAL s
      | Some x \<Rightarrow>
         if pshared \<noteq> 0 then returns UTHREAD_EINVAL s
         else
           let s1 = upd_sem x (\<lambda>_. sem0\<lparr>s_value := v\<rparr>) s
           in if \<not> mem then returns UTHREAD_ENOMEM s1
              else returns UTHREAD_SUCCESS
                     (upd_sem x (\<lambda>y. y\<lparr>s_initialized := True\<rparr>)
                        (wait_queue_init (Some (SemQ x))
                           (upd_sem x (\<lambda>y. y\<lparr>s_waiters := Some (SemQ x)\<rparr>) s1))))"

definition uthread_sem_destroy :: "nat option \<Rightarrow> sys \<Rightarrow> seg option" where
  "uthread_sem_destroy sem s =
     (case sem of None \<Rightarrow> returns UTHREAD_EINVAL s
      | Some x \<Rightarrow>
         if \<not> s_initialized (sems s x) then returns UTHREAD_EINVAL s
         else if s_waiters (sems s x) \<noteq> None \<and> \<not> wait_queue_empty (s_waiters (sems s x)) s
         then returns UTHREAD_EBUSY s
         else returns UTHREAD_SUCCESS
                (upd_sem x (\<lambda>y. y\<lparr>s_initialized := False\<rparr>)
                   (if s_waiters (sems s x) \<noteq> None
                    then upd_sem x (\<lambda>y. y\<lparr>s_waiters := None\<rparr>)
                           (wait_queue_init (s_waiters (sems s x)) s)
                    else s)))"

text \<open>
  The loop \<open>while (sem->value <= 0)\<close> of \<open>uthread_sem_wait\<close> and the decrement after it.
  Without a current thread the loop spins for ever.
\<close>

definition sem_wait_loop :: "tid option \<Rightarrow> nat \<Rightarrow> sys \<Rightarrow> seg option" where
  "sem_wait_loop nxt x s =
     (if sint (s_value (sems s x)) \<le> 0 then
        (case current s of None \<Rightarrow> None
         | Some t \<Rightarrow>
            stops_at (In_sem_wait x) nxt
              (wait_queue_add (s_waiters (sems s x)) (Some t)
                 (upd_thread t (\<lambda>y. y\<lparr>state := UTHREAD_STATE_BLOCKED\<rparr>) s)))
      else returns UTHREAD_SUCCESS (upd_sem x (\<lambda>y. y\<lparr>s_value := s_value y - 1\<rparr>) s))"

definition uthread_sem_wait :: "tid option \<Rightarrow> nat option \<Rightarrow> sys \<Rightarrow> seg option" where
  "uthread_sem_wait nxt sem s =
     (case sem of None \<Rightarrow> returns UTHREAD_EINVAL s
      | Some x \<Rightarrow>
         if \<not> s_initialized (sems s x) then returns UTHREAD_EINVAL s
         else sem_wait_loop nxt x s)"

definition uthread_sem_trywait :: "nat option \<Rightarrow> sys \<Rightarrow> seg option" where
  "uthread_sem_trywait sem s =
     (case sem of None \<Rightarrow> returns UTHREAD_EINVAL s
      | Some x \<Rightarrow>
         if \<not> s_initialized (sems s x) then returns UTHREAD_EINVAL s
         else if sint (s_value (sems s x)) > 0
         then returns UTHREAD_SUCCESS (upd_sem x (\<lambda>y. y\<lparr>s_value := s_value y - 1\<rparr>) s)
         else returns UTHREAD_EAGAIN s)"

text \<open>
  \<open>uthread_sem_timedwait\<close>: the loop from its head with the clock reading \<open>now\<close>, and
  the code after \<open>scheduler_schedule\<close> with the readings \<open>now1\<close> (after the
  schedule) and \<open>now2\<close> (at the next loop head).
\<close>

definition sem_timedwait_loop :: "64 word \<Rightarrow> tid option \<Rightarrow> nat \<Rightarrow> 64 word \<Rightarrow> sys \<Rightarrow> seg option" where
  "sem_timedwait_loop now nxt x deadline s =
     (if sint (s_value (sems s x)) \<le> 0 then
        (if now \<ge> deadline then returns UTHREAD_ETIMEDOUT s
         else
           (case current s of None \<Rightarrow> None
            | Some t \<Rightarrow>
               stops_at (In_sem_timedwait x deadline) nxt
                 (wait_queue_add (s_waiters (sems s x)) (Some t)
                    (upd_thread t (\<lambda>y. y\<lparr>state := UTHREAD_STATE_BLOCKED\<rparr>) s))))
      else returns UTHREAD_SUCCESS (upd_sem x (\<lambda>y. y\<lparr>s_value := s_value y - 1\<rparr>) s))"

definition sem_timedwait_resume :: "64 word \<Rightarrow> 64 word \<Rightarrow> tid option \<Rightarrow> nat \<Rightarrow> 64 word \<Rightarrow> sys \<Rightarrow> seg option" where
  "sem_timedwait_resume now1 now2 nxt x deadline s =
     (if now1 \<ge> deadline then
        returns UTHREAD_ETIMEDOUT
          (case current s of None \<Rightarrow> s
           | Some t \<Rightarrow>
              if blocked_queue (threads s t) \<noteq> None
              then snd (wait_queue_remove_specific (s_waiters (sems s x)) (Some t) s)
              else s)
      else sem_timedwait_loop now2 nxt x deadline s)"

definition uthread_sem_timedwait :: "64 word \<Rightarrow> tid option \<Rightarrow> nat option \<Rightarrow> 64 word option \<Rightarrow> sys \<Rightarrow> seg option" where
  "uthread_sem_timedwait now nxt sem abstime s =
     (case sem of None \<Rightarrow> returns UTHREAD_EINVAL s
      | Some x \<Rightarrow>
         (case abstime of None \<Rightarrow> returns UTHREAD_EINVAL s
          | Some deadline \<Rightarrow>
             if \<not> s_initialized (sems s x) then returns UTHREAD_EINVAL s
             else sem_timedwait_loop now nxt x deadline s))"

definition uthread_sem_post :: "nat option \<Rightarrow> sys \<Rightarrow> seg option" where
  "uthread_sem_post sem s =
     (case sem of None \<Rightarrow> returns UTHREAD_EINVAL s
      | Some x \<Rightarrow>
         if \<not> s_initialized (sems s x) then returns UTHREAD_EINVAL s
         else
           let s1 = upd_sem x (\<lambda>y. y\<lparr>s_value := s_value y + 1\<rparr>) s
           in if s_waiters (sems s1 x) \<noteq> None \<and> \<not> wait_queue_empty (s_waiters (sems s1 x)) s1
              then returns UTHREAD_SUCCESS (wait_queue_wake_one (s_waiters (sems s1 x)) s1)
              else returns UTHREAD_SUCCESS s1)"

definition uthread_sem_getvalue :: "nat option \<Rightarrow> bool \<Rightarrow> sys \<Rightarrow> seg option" where
  "uthread_sem_getvalue sem sval s =
     (case sem of None \<Rightarrow> returns UTHREAD_EINVAL s
      | Some x \<Rightarrow>
         if \<not> sval then returns UTHREAD_EINVAL s
         else if \<not> s_initialized (sems s x) then returns UTHREAD_EINVAL s
         else returns_out UTHREAD_SUCCESS (OutInt (sint (s_value (sems s x)))) s)"

section \<open>Thread lifecycle (uthread.c, context.c)\<close>

text \<open>
  The loop \<open>while (!t->exited)\<close> of \<open>uthread_join\<close> and the code after it;
  \<open>has_ptr\<close> tells whether the \<open>retval\<close> out-pointer is non-null.  The functions
  read the fields of \<open>t\<close>: a block that is not allocated has no fields to read
  (\<open>None\<close>).  After the loop \<open>scheduler_remove_thread\<close> takes the joined thread out
  of the registry and \<open>thread_free\<close> hands its block and stack back.
\<close>

definition join_loop :: "tid option \<Rightarrow> tid \<Rightarrow> bool \<Rightarrow> sys \<Rightarrow> seg option" where
  "join_loop nxt t has_ptr s =
     (if t \<notin> allocated s then None
      else if \<not> exited (threads s t) then
        (case current s of None \<Rightarrow> None
         | Some c \<Rightarrow>
            stops_at (In_join t has_ptr) nxt
              (upd_thread c (\<lambda>x. x\<lparr>waiting_on := Some t, state := UTHREAD_STATE_BLOCKED\<rparr>)
                 (upd_thread t (\<lambda>x. x\<lparr>joiner := Some c\<rparr>) s)))
      else returns_out UTHREAD_SUCCESS (if has_ptr then OutPtr (retval (threads s t)) else NoOut)
             (s\<lparr>allocated := allocated s - {t}\<rparr>))"

definition uthread_join :: "tid option \<Rightarrow> tid option \<Rightarrow> bool \<Rightarrow> sys \<Rightarrow> seg option" where
  "uthread_join nxt thread has_ptr s =
     (if \<not> sched_initialized s \<or> thread = None then returns UTHREAD_EINVAL s
      else
        (case thread of None \<Rightarrow> returns UTHREAD_EINVAL s
         | Some t \<Rightarrow>
            if Some t = current s then returns UTHREAD_EDEADLK s
            else if t \<notin> allocated s then None
            else if detached (threads s t) then returns UTHREAD_EINVAL s
            else if joiner (threads s t) \<noteq> None \<and> joiner (threads s t) \<noteq> current s
            then returns UTHREAD_EINVAL s
            else join_loop nxt t has_ptr s))"

text \<open>
  \<open>uthread_exit\<close>, with no cleanup handler registered.  Without an initialised library
  or a current thread the process exits; when \<open>scheduler_schedule\<close> comes back the
  assertion aborts it.  A detached thread hands its own control block and its stack to
  \<open>thread_free\<close> and then calls \<open>scheduler_schedule\<close>, which runs on the released
  stack and reads the released block: there is no successor state (\<open>None\<close>).
\<close>

definition uthread_exit :: "tid option \<Rightarrow> nat \<Rightarrow> sys \<Rightarrow> seg option" where
  "uthread_exit nxt v s =
     (if \<not> sched_initialized s then None
      else
        (case current s of None \<Rightarrow> None
         | Some c \<Rightarrow>
            let s1 = upd_thread c (\<lambda>x. x\<lparr>retval := v, exited := True,
                                          state := UTHREAD_STATE_TERMINATED\<rparr>) s;
                s2 = ops_remove c s1;
                s3 = (case joiner (threads s2 c) of None \<Rightarrow> s2
                      | Some j \<Rightarrow>
                         ops_enqueue j
                           (upd_thread j (\<lambda>x. x\<lparr>waiting_on := None, state := UTHREAD_STATE_READY\<rparr>) s2))
            in if detached (threads s3 c) then None else stops_at In_exit nxt s3))"

text \<open>\<open>context_entry_wrapper\<close> after the start routine has returned \<open>v\<close>.\<close>

definition context_entry_wrapper_return :: "tid option \<Rightarrow> nat \<Rightarrow> sys \<Rightarrow> seg option" where
  "context_entry_wrapper_return nxt v s = uthread_exit nxt v s"

definition uthread_yield :: "tid option \<Rightarrow> sys \<Rightarrow> seg option" where
  "uthread_yield nxt s =
     (if \<not> sched_initialized s then returns_void s
      else
        (case current s of None \<Rightarrow> returns_void s
         | Some c \<Rightarrow>
            stops_at In_yield nxt
              (if state (threads s c) = UTHREAD_STATE_RUNNING
               then ops_enqueue c (upd_thread c (\<lambda>x. x\<lparr>state := UTHREAD_STATE_READY\<rparr>) s)
               else s)))"

section \<open>Executions\<close>

text \<open>
  What the running thread does next: it calls a library function from application code,
  or it continues inside the function it was stopped in.  The inputs of a step are whether
  \<open>malloc\<close> succeeds, the readings of the clock and the thread \<open>ops->dequeue\<close>
  returns; for \<open>uthread_create\<close> the block \<open>calloc\<close> returns and whether the stack is
  obtained come first in the label.
\<close>

text \<open>
  \<open>calloc\<close> returns the address of a block that is not allocated.  A thread's block is
  released only after the thread has exited, so such a block is not the running thread, is
  in no queue, and no thread that has not exited names it as its joiner.  A step in which
  \<open>calloc\<close> would return another address does not exist.
\<close>

definition fresh :: "sys \<Rightarrow> tid \<Rightarrow> bool" where
  "fresh s t \<longleftrightarrow> current s \<noteq> Some t \<and> t \<notin> set (runq s) \<and> (\<forall>q. t \<notin> set (wqs s q))
     \<and> (\<forall>u. joiner (threads s u) = Some t \<longrightarrow> exited (threads s u))"

datatype call =
    Mutex_lock "nat option"
  | Mutex_trylock "nat option"
  | Mutex_unlock "nat option"
  | Cond_wait "nat option" "nat option"
  | Cond_timedwait "nat option" "nat option" "64 word option"
  | Cond_signal "nat option"
  | Cond_broadcast "nat option"
  | Sem_init "nat option" int "32 word"
  | Sem_destroy "nat option"
  | Sem_wait "nat option"
  | Sem_trywait "nat option"
  | Sem_timedwait "nat option" "64 word option"
  | Sem_post "nat option"
  | Sem_getvalue "nat option" bool
  | Create "tid option" bool bool "uthread_attr option" "nat option" nat
  | Join "tid option" bool
  | Exit nat
  | Start_returns nat
  | Yield

datatype label = Call call | Resume

record inp =
  i_mem :: bool
  i_now :: "64 word"
  i_now2 :: "64 word"
  i_nxt :: "tid option"

definition api :: "inp \<Rightarrow> call \<Rightarrow> sys \<Rightarrow> seg option" where
  "api i c s =
     (case c of
        Mutex_lock m \<Rightarrow> uthread_mutex_lock (i_mem i) (i_nxt i) m s
      | Mutex_trylock m \<Rightarrow> uthread_mutex_trylock (i_mem i) m s
      | Mutex_unlock m \<Rightarrow> uthread_mutex_unlock m s
      | Cond_wait cv m \<Rightarrow> uthread_cond_wait (i_mem i) (i_nxt i) cv m s
      | Cond_timedwait cv m d \<Rightarrow> uthread_cond_timedwait (i_mem i) (i_now i) (i_nxt i) cv m d s
      | Cond_signal cv \<Rightarrow> uthread_cond_signal (i_mem i) cv s
      | Cond_broadcast cv \<Rightarrow> uthread_cond_broadcast (i_mem i) cv s
      | Sem_init x p v \<Rightarrow> uthread_sem_init (i_mem i) x p v s
      | Sem_destroy x \<Rightarrow> uthread_sem_destroy x s
      | Sem_wait x \<Rightarrow> uthread_sem_wait (i_nxt i) x s
      | Sem_trywait x \<Rightarrow> uthread_sem_trywait x s
      | Sem_timedwait x d \<Rightarrow> uthread_sem_timedwait (i_now i) (i_nxt i) x d s
      | Sem_post x \<Rightarrow> uthread_sem_post x s
      | Sem_getvalue x p \<Rightarrow> uthread_sem_getvalue x p s
      | Create new stack_ok thread attr start a \<Rightarrow>
          (case new of
             None \<Rightarrow> uthread_create None stack_ok thread attr start a s
           | Some t \<Rightarrow>
              if t \<in> allocated s \<or> \<not> fresh s t then None
              else uthread_create (Some t) stack_ok thread attr start a s)
      | Join t p \<Rightarrow> uthread_join (i_nxt i) t p s
      | Exit v \<Rightarrow> uthread_exit (i_nxt i) v s
      | Start_returns v \<Rightarrow> context_entry_wrapper_return (i_nxt i) v s
      | Yield \<Rightarrow> uthread_yield (i_nxt i) s)"

definition resume :: "inp \<Rightarrow> context_t \<Rightarrow> sys \<Rightarrow> seg option" where
  "resume i k s =
     (case k of
        User \<Rightarrow> None
      | At_entry \<Rightarrow> returns_void s
      | In_mutex_lock m \<Rightarrow> mutex_lock_loop (i_nxt i) m s
      | In_cond_wait c m \<Rightarrow> cond_relock (In_cond_wait_relock c m) UTHREAD_SUCCESS (i_nxt i) m s
      | In_cond_wait_relock c m \<Rightarrow> cond_relock (In_cond_wait_relock c m) UTHREAD_SUCCESS (i_nxt i) m s
      | In_cond_timedwait c m d \<Rightarrow> cond_timedwait_loop (i_now i) (i_nxt i) c m d s
      | In_cond_timedwait_relock c m rc \<Rightarrow> cond_relock (In_cond_timedwait_relock c m rc) rc (i_nxt i) m s
      | In_sem_wait x \<Rightarrow> sem_wait_loop (i_nxt i) x s
      | In_sem_timedwait x d \<Rightarrow> sem_timedwait_resume (i_now i) (i_now2 i) (i_nxt i) x d s
      | In_join t p \<Rightarrow> join_loop (i_nxt i) t p s
      | In_yield \<Rightarrow> returns_void s
      | In_exit \<Rightarrow> None)"

definition pc :: "sys \<Rightarrow> context_t" where
  "pc s = (case current s of None \<Rightarrow> User | Some t \<Rightarrow> t_context (threads s t))"

definition step :: "inp \<Rightarrow> label \<Rightarrow> sys \<Rightarrow> seg option" where
  "step i l s =
     (case l of
        Call c \<Rightarrow> if pc s = User then api i c s else None
      | Resume \<Rightarrow> if pc s = User then None else resume i (pc s) s)"

text \<open>
  An execution is a list of steps; each leaves an event: the thread that ran, where it
  was, what it did and what the library returned to it, if a function returned.
\<close>

datatype event = Event (ev_who: "tid option") (ev_at: context_t) (ev_did: label)
  (ev_res: "(uthread_err \<times> outv) option")

fun run :: "(inp \<times> label) list \<Rightarrow> sys \<Rightarrow> (event list \<times> sys) option" where
  "run [] s = Some ([], s)"
| "run ((i, l) # ls) s =
     (case step i l s of None \<Rightarrow> None
      | Some (r, s') \<Rightarrow>
         (case run ls s' of None \<Rightarrow> None
          | Some (es, s'') \<Rightarrow> Some (Event (current s) (pc s) l r # es, s'')))"


section \<open>Properties of executions\<close>

lemma upd_mutex_simps [simp]:
  "mutexes (upd_mutex m f s) = (mutexes s)(m := f (mutexes s m))"
  "current (upd_mutex m f s) = current s"
  "threads (upd_mutex m f s) = threads s"
  "runq (upd_mutex m f s) = runq s"
  "wqs (upd_mutex m f s) = wqs s"
  "sems (upd_mutex m f s) = sems s"
  "conds (upd_mutex m f s) = conds s"
  "sched_initialized (upd_mutex m f s) = sched_initialized s"
  by (simp_all add: upd_mutex_def)

lemma upd_thread_simps [simp]:
  "threads (upd_thread t f s) = (threads s)(t := f (threads s t))"
  "current (upd_thread t f s) = current s"
  "mutexes (upd_thread t f s) = mutexes s"
  "runq (upd_thread t f s) = runq s"
  "wqs (upd_thread t f s) = wqs s"
  "sems (upd_thread t f s) = sems s"
  "conds (upd_thread t f s) = conds s"
  "sched_initialized (upd_thread t f s) = sched_initialized s"
  by (simp_all add: upd_thread_def)

lemma upd_cond_simps [simp]:
  "conds (upd_cond c f s) = (conds s)(c := f (conds s c))"
  "current (upd_cond c f s) = current s"
  "threads (upd_cond c f s) = threads s"
  "runq (upd_cond c f s) = runq s"
  "wqs (upd_cond c f s) = wqs s"
  "sems (upd_cond c f s) = sems s"
  "mutexes (upd_cond c f s) = mutexes s"
  "sched_initialized (upd_cond c f s) = sched_initialized s"
  by (simp_all add: upd_cond_def)

lemma upd_sem_simps [simp]:
  "sems (upd_sem c f s) = (sems s)(c := f (sems s c))"
  "current (upd_sem c f s) = current s"
  "threads (upd_sem c f s) = threads s"
  "runq (upd_sem c f s) = runq s"
  "wqs (upd_sem c f s) = wqs s"
  "conds (upd_sem c f s) = conds s"
  "mutexes (upd_sem c f s) = mutexes s"
  "sched_initialized (upd_sem c f s) = sched_initialized s"
  by (simp_all add: upd_sem_def)

lemma wait_queue_init_simps [simp]:
  "mutexes (wait_queue_init q s) = mutexes s"
  "current (wait_queue_init q s) = current s"
  "threads (wait_queue_init q s) = threads s"
  "runq (wait_queue_init q s) = runq s"
  "sems (wait_queue_init q s) = sems s"
  "conds (wait_queue_init q s) = conds s"
  by (simp_all add: wait_queue_init_def split: option.splits)

lemma wake_all_unfold:
  "wait_queue_wake_all wq s =
     (case wq of None \<Rightarrow> s
      | Some q \<Rightarrow> if wqs s q = [] then s else wait_queue_wake_all wq (wait_queue_wake_one wq s))"
  by (subst wait_queue_wake_all.simps)
     (auto simp: wait_queue_wake_one_def wait_queue_remove_def split: option.splits list.splits)

lemma wake_one_shortens:
  "wqs s q \<noteq> [] \<Longrightarrow> length (wqs (wait_queue_wake_one (Some q) s) q) < length (wqs s q)"
  by (auto simp: wait_queue_wake_one_def wait_queue_remove_def scheduler_unblock_def
      ops_enqueue_def upd_thread_def split: list.splits)

lemma wake_all_pres:
  assumes step: "\<And>s. P s \<Longrightarrow> P (wait_queue_wake_one wq s)"
  shows "P s \<Longrightarrow> P (wait_queue_wake_all wq s)"
proof (cases wq)
  case None
  assume "P s"
  then show ?thesis using None by (simp add: wake_all_unfold)
next
  case (Some q)
  assume p: "P s"
  have "\<And>s. length (wqs s q) = n \<Longrightarrow> P s \<Longrightarrow> P (wait_queue_wake_all (Some q) s)" for n
  proof (induction n rule: less_induct)
    case (less n)
    show ?case
    proof (cases "wqs s q = []")
      case True
      then show ?thesis using less.prems by (subst wake_all_unfold) simp
    next
      case False
      have "P (wait_queue_wake_all (Some q) (wait_queue_wake_one (Some q) s))"
        using less.IH [OF _ refl] wake_one_shortens [OF False] less.prems step Some by auto
      then show ?thesis using False by (subst wake_all_unfold) simp
    qed
  qed
  then show ?thesis using p Some by blast
qed

lemma sems_frames [simp]:
  "sems (wait_queue_add q t s) = sems s"
  "sems (wait_queue_init q s) = sems s"
  "sems (snd (wait_queue_remove q s)) = sems s"
  "sems (snd (wait_queue_remove_specific q t s)) = sems s"
  "sems (scheduler_unblock t s) = sems s"
  "sems (wait_queue_wake_one q s) = sems s"
  "sems (ops_enqueue u s) = sems s"
  "sems (ops_remove u s) = sems s"
  "sems (upd_cond c f s) = sems s"
  "sems (mutex_acquire m s) = sems s"
  "sems (mutex_release m s) = sems s"
  "sems (cond_release_mutex m s) = sems s"
  by (auto simp: wait_queue_add_def wait_queue_remove_def wait_queue_remove_specific_def
      scheduler_unblock_def wait_queue_wake_one_def ops_enqueue_def ops_remove_def
      upd_cond_def mutex_acquire_def mutex_release_def cond_release_mutex_def Let_def
      wait_queue_init_def
      split: option.splits list.splits)

lemma sems_wake_all [simp]: "sems (wait_queue_wake_all q s) = sems s"
  by (rule wake_all_pres [where P = "\<lambda>s'. sems s' = sems s"]) simp_all

lemma sems_upd_sem [simp]:
  "sems (upd_sem x f s) = (sems s)(x := f (sems s x))"
  by (simp add: upd_sem_def)

lemma sems_schedule: "scheduler_schedule nxt s = Some s' \<Longrightarrow> sems s' = sems s"
  by (auto simp: scheduler_schedule_def Let_def split: option.splits if_splits)

lemma stops_atD: "stops_at k nxt s = Some (r, s') \<Longrightarrow> r = None \<and> sems s' = sems s"
  by (auto simp: stops_at_def dest!: sems_schedule split: option.splits)

lemma returnsD: "returns e s = Some (r, s') \<Longrightarrow> r = Some (e, NoOut) \<and> sems s' = sems s"
  by (auto simp: returns_def split: option.splits)

lemma returns_outD: "returns_out e out s = Some (r, s') \<Longrightarrow> r = Some (e, out) \<and> sems s' = sems s"
  by (auto simp: returns_out_def split: option.splits)

lemma returns_voidD: "returns_void s = Some (r, s') \<Longrightarrow> r = None \<and> sems s' = sems s"
  by (auto simp: returns_void_def split: option.splits)


lemmas retD = stops_atD returnsD returns_outD returns_voidD

lemma mutex_fns_sems:
  "uthread_mutex_lock mem nxt m s = Some (r, s') \<Longrightarrow> sems s' = sems s"
  "uthread_mutex_trylock mem m s = Some (r, s') \<Longrightarrow> sems s' = sems s"
  "uthread_mutex_unlock m s = Some (r, s') \<Longrightarrow> sems s' = sems s"
  "mutex_lock_loop nxt k s = Some (r, s') \<Longrightarrow> sems s' = sems s"
  by (auto simp: uthread_mutex_lock_def uthread_mutex_trylock_def uthread_mutex_unlock_def
      mutex_lock_loop_def mutex_lazy_init_def Let_def
      dest!: retD split: option.splits sum.splits if_splits)

lemma cond_relock_sems:
  "cond_relock k rc nxt m s = Some (r, s') \<Longrightarrow> sems s' = sems s"
  by (auto simp: cond_relock_def dest!: retD split: option.splits if_splits)

lemma cond_timedwait_loop_sems:
  "cond_timedwait_loop now nxt c m d s = Some (r, s') \<Longrightarrow> sems s' = sems s"
  by (auto simp: cond_timedwait_loop_def dest!: retD cond_relock_sems split: option.splits if_splits)

lemma cond_fns_sems:
  "uthread_cond_wait mem nxt c m s = Some (r, s') \<Longrightarrow> sems s' = sems s"
  "uthread_cond_timedwait mem now nxt c m d s = Some (r, s') \<Longrightarrow> sems s' = sems s"
  "uthread_cond_signal mem c s = Some (r, s') \<Longrightarrow> sems s' = sems s"
  "uthread_cond_broadcast mem c s = Some (r, s') \<Longrightarrow> sems s' = sems s"
  by (auto simp: uthread_cond_wait_def uthread_cond_timedwait_def uthread_cond_signal_def
      uthread_cond_broadcast_def cond_lazy_init_def Let_def
      dest!: retD cond_timedwait_loop_sems split: option.splits sum.splits if_splits)

lemma life_fns_sems:
  "uthread_join nxt t p s = Some (r, s') \<Longrightarrow> sems s' = sems s"
  "join_loop nxt u p s = Some (r, s') \<Longrightarrow> sems s' = sems s"
  "uthread_exit nxt v s = Some (r, s') \<Longrightarrow> sems s' = sems s"
  "uthread_yield nxt s = Some (r, s') \<Longrightarrow> sems s' = sems s"
  by (auto simp: uthread_join_def join_loop_def uthread_exit_def uthread_yield_def Let_def
      dest!: retD split: option.splits sum.splits if_splits)

text \<open>
  What a returning \<open>uthread_create\<close> has done: nothing but to return an error, or it has
  written the new block, recorded it as allocated and enqueued it.
\<close>

lemma uthread_create_cases:
  assumes "uthread_create new stack_ok thread attr start a s = Some (r, s')"
  shows "(\<exists>e. e \<noteq> UTHREAD_SUCCESS \<and> returns e s = Some (r, s'))
       \<or> (\<exists>t n r0. new = Some t \<and> r = Some (UTHREAD_SUCCESS, OutPtr t)
             \<and> blocked_queue n = None \<and> joiner n = None \<and> \<not> exited n \<and> retval n = 0
             \<and> returns UTHREAD_SUCCESS
                   (ops_enqueue t (s\<lparr>threads := (threads s)(t := n),
                                     allocated := insert t (allocated s)\<rparr>)) = Some (r0, s'))"
proof -
  have rr: "\<And>e s. returns e s = Some (Some (e, NoOut), snd (the (returns e s)))"
    by (simp add: returns_def)
  show ?thesis
  proof (cases "\<exists>e. e \<noteq> UTHREAD_SUCCESS \<and> returns e s = Some (r, s')")
    case True
    then show ?thesis by blast
  next
    case False
    then have ne: "\<And>e. e \<noteq> UTHREAD_SUCCESS \<Longrightarrow> returns e s \<noteq> Some (r, s')" by blast
    from assms ne obtain t where t: "new = Some t"
      by (auto simp: uthread_create_def Let_def split: if_splits option.splits)
    from assms ne t have g: "sched_initialized s" "thread" "start \<noteq> None" "stack_ok"
      by (auto simp: uthread_create_def Let_def split: if_splits)
    show ?thesis
      using assms unfolding uthread_create_def Let_def t
      apply (simp only: g if_True if_False not_True_eq_False not_False_eq_True simp_thms option.case)
      apply (subst (asm) rr)
      apply (simp split: if_splits)
      apply (rule disjI2)
      apply (elim conjE)
      apply (rule exI)
      apply (intro conjI)
          prefer 5
          apply (rule exI)
          apply (subst rr)
          apply (rule arg_cong [where f = Some])
          apply (rule arg_cong2 [where f = Pair])
           apply (rule refl)
          apply assumption
         apply (simp_all add: thread_alloc_def tcb0_def split: option.splits)
      done
  qed
qed

lemma create_sems:
  "uthread_create new stack_ok thread attr start a s = Some (r, s') \<Longrightarrow> sems s' = sems s"
  by (drule uthread_create_cases) (auto simp: ops_enqueue_def dest!: retD)

lemma api_create_sems:
  "api i (Create new stack_ok thread attr start a) s = Some (r, s') \<Longrightarrow> sems s' = sems s"
  by (auto simp: api_def dest: create_sems split: option.splits if_splits)

subsection \<open>Properties of the mutex\<close>


definition errorcheck_held :: sys where
  "errorcheck_held =
     sys0\<lparr>mutexes := (\<lambda>_. mutex0)(0 := \<lparr>m_lock = 1, m_owner = Some 1,
              m_waiters = Some (MutexQ 0), m_type = UTHREAD_MUTEX_ERRORCHECK,
              m_recursion_count = 1, m_initialized = True\<rparr>)\<rparr>"


text \<open>
  C1.  A RECURSIVE mutex locked twice by thread 1; thread 2 is running and calls
  \<open>uthread_mutex_unlock\<close>.  The call succeeds and the mutex is free: owner, lock flag
  and recursion count are cleared, although thread 1 never unlocked.
\<close>

definition recursive_held :: sys where
  "recursive_held =
     sys0\<lparr>current := Some 2,
          mutexes := (\<lambda>_. mutex0)(0 := \<lparr>m_lock = 1, m_owner = Some 1,
              m_waiters = Some (MutexQ 0), m_type = UTHREAD_MUTEX_RECURSIVE,
              m_recursion_count = 2, m_initialized = True\<rparr>)\<rparr>"

theorem recursive_unlock_by_other_thread_releases:
  "\<exists>s'. uthread_mutex_unlock (Some 0) recursive_held = Some (Some (UTHREAD_SUCCESS, NoOut), s')
     \<and> m_owner (mutexes s' 0) = None \<and> m_lock (mutexes s' 0) = 0
     \<and> m_recursion_count (mutexes s' 0) = 0"
  by (simp add: uthread_mutex_unlock_def recursive_held_def sys0_def returns_def
      mutex_release_def wait_queue_empty_def mutex0_def)


subsection \<open>Stack size of a created thread\<close>

text \<open>
  C9.  An attribute structure whose \<open>stack_size\<close> field holds 16 MiB (the structure is
  plain data; \<open>uthread_attr_setstacksize\<close> would have refused the value).
  \<open>uthread_create\<close> succeeds and the new thread's stack size is 16 MiB, above the
  maximum of 8 MiB: the function checks the lower bound only.
\<close>

definition big_attr :: uthread_attr where
  "big_attr = uthread_attr_init\<lparr>a_stack_size := 16 * 1024 * 1024\<rparr>"

theorem create_stack_size_above_max:
  "(\<exists>s'. uthread_create (Some 2) True True (Some big_attr) (Some 7) 0 sys0
            = Some (Some (UTHREAD_SUCCESS, OutPtr 2), s')
          \<and> stack_size (threads s' 2) = 16 * 1024 * 1024
          \<and> stack_size (threads s' 2) > UTHREAD_STACK_MAX)
   \<and> fst (uthread_attr_setstacksize (Some uthread_attr_init) (16 * 1024 * 1024)) = UTHREAD_EINVAL"
  by (simp add: uthread_create_def big_attr_def uthread_attr_init_def sys0_def returns_def
      ops_enqueue_def thread_alloc_def UTHREAD_STACK_MIN_def UTHREAD_STACK_MAX_def
      UTHREAD_STACK_DEFAULT_def uthread_attr_setstacksize_def UTHREAD_GUARD_SIZE_def
      UTHREAD_MAX_THREADS_def SIZE_MAX_def)

theorem create_stack_size_above_max_witness:
  "\<exists>s'. uthread_create (Some 2) True True (Some big_attr) (Some 7) 0 sys0
            = Some (Some (UTHREAD_SUCCESS, OutPtr 2), s')
          \<and> stack_size (threads s' 2) = 16777216"
  using create_stack_size_above_max by auto

section \<open>The fair-share policy (sched_cfs.c)\<close>

text \<open>
  The globals of \<open>g_cfs_state\<close> together with the memory of the thread control blocks
  the tree is threaded through.
\<close>

record cfs =
  nodes :: "tid \<Rightarrow> uthread_internal"
  rb_root :: "tid option"
  rb_leftmost :: "tid option"
  min_vruntime :: "64 word"
  cfs_count :: int

definition CFS_MIN_GRANULARITY_NS :: "64 word" where
  "CFS_MIN_GRANULARITY_NS = 1 * 1000 * 1000"

definition cfs_should_preempt :: "tid option \<Rightarrow> cfs \<Rightarrow> bool" where
  "cfs_should_preempt cur s =
     (case cur of None \<Rightarrow> False
      | Some c \<Rightarrow>
         if timeslice_remaining (nodes s c) = 0 then cfs_count s > 0
         else
           (case rb_leftmost s of
              None \<Rightarrow> False
            | Some l \<Rightarrow>
               let delta = vruntime (nodes s c) - vruntime (nodes s l)
               in if delta > CFS_MIN_GRANULARITY_NS then True else False))"

text \<open>
  C3.  The running thread 1 has virtual runtime 0 and time slice left; the only queued
  thread 2, the leftmost, has virtual runtime 5, which is not below that of thread 1.
  The unsigned difference wraps around to \<open>2^64 - 5\<close> and \<open>cfs_should_preempt\<close>
  returns true.
\<close>

definition cfs_ahead :: cfs where
  "cfs_ahead =
     \<lparr>nodes = (\<lambda>_. tcb0)(1 := tcb0\<lparr>vruntime := 0, timeslice_remaining := 1\<rparr>,
                          2 := tcb0\<lparr>vruntime := 5, rb_color := 1\<rparr>),
      rb_root = Some 2, rb_leftmost = Some 2, min_vruntime = 0, cfs_count = 1\<rparr>"

theorem cfs_should_preempt_wraps:
  "cfs_should_preempt (Some 1) cfs_ahead
   \<and> timeslice_remaining (nodes cfs_ahead 1) \<noteq> 0
   \<and> rb_leftmost cfs_ahead = Some 2
   \<and> vruntime (nodes cfs_ahead 2) \<ge> vruntime (nodes cfs_ahead 1)"
  by (simp add: cfs_should_preempt_def cfs_ahead_def tcb0_def CFS_MIN_GRANULARITY_NS_def)


subsection \<open>Semaphore accounting\<close>

definition ok :: "(uthread_err \<times> outv) option \<Rightarrow> bool" where
  "ok r = (case r of None \<Rightarrow> False | Some (rc, out) \<Rightarrow> rc = UTHREAD_SUCCESS)"

definition succeeded :: "event \<Rightarrow> bool" where
  "succeeded e = ok (ev_res e)"

lemma ok_simps [simp]:
  "ok None = False"
  "ok (Some (rc, out)) = (rc = UTHREAD_SUCCESS)"
  by (simp_all add: ok_def)

definition sem_post_of :: "event \<Rightarrow> nat option" where
  "sem_post_of e = (case ev_did e of Call (Sem_post x) \<Rightarrow> x | _ \<Rightarrow> None)"

definition sem_wait_of :: "event \<Rightarrow> nat option" where
  "sem_wait_of e =
     (case ev_did e of
        Call (Sem_wait x) \<Rightarrow> x
      | Call (Sem_trywait x) \<Rightarrow> x
      | Call (Sem_timedwait x d) \<Rightarrow> x
      | Call _ \<Rightarrow> None
      | Resume \<Rightarrow>
         (case ev_at e of In_sem_wait x \<Rightarrow> Some x | In_sem_timedwait x d \<Rightarrow> Some x | _ \<Rightarrow> None))"

definition sem_init_of :: "label \<Rightarrow> nat option" where
  "sem_init_of l = (case l of Call (Sem_init x p v) \<Rightarrow> x | _ \<Rightarrow> None)"

definition posts :: "nat \<Rightarrow> event list \<Rightarrow> nat" where
  "posts x es = length (filter (\<lambda>e. succeeded e \<and> sem_post_of e = Some x) es)"

definition waits :: "nat \<Rightarrow> event list \<Rightarrow> nat" where
  "waits x es = length (filter (\<lambda>e. succeeded e \<and> sem_wait_of e = Some x) es)"

definition sem_delta :: "nat \<Rightarrow> event \<Rightarrow> int" where
  "sem_delta x e = (if succeeded e \<and> sem_post_of e = Some x then 1 else 0)
                 - (if succeeded e \<and> sem_wait_of e = Some x then 1 else 0)"

lemma sem_wait_loop_value:
  "sem_wait_loop nxt y s = Some (r, s') \<Longrightarrow>
     s_value (sems s' x) = s_value (sems s x) - (if ok r \<and> x = y then 1 else 0)"
  by (auto simp: sem_wait_loop_def dest!: retD split: option.splits if_splits)

lemma sem_timedwait_loop_value:
  "sem_timedwait_loop now nxt y d s = Some (r, s') \<Longrightarrow>
     s_value (sems s' x) = s_value (sems s x) - (if ok r \<and> x = y then 1 else 0)"
  by (auto simp: sem_timedwait_loop_def dest!: retD split: option.splits if_splits)

lemma sem_timedwait_resume_value:
  "sem_timedwait_resume now1 now2 nxt y d s = Some (r, s') \<Longrightarrow>
     s_value (sems s' x) = s_value (sems s x) - (if ok r \<and> x = y then 1 else 0)"
  by (auto simp: sem_timedwait_resume_def dest!: retD sem_timedwait_loop_value [where x = x]
      split: option.splits if_splits)

lemma sem_fns_value:
  "uthread_sem_wait nxt (Some y) s = Some (r, s') \<Longrightarrow>
     s_value (sems s' x) = s_value (sems s x) - (if ok r \<and> x = y then 1 else 0)"
  "uthread_sem_trywait (Some y) s = Some (r, s') \<Longrightarrow>
     s_value (sems s' x) = s_value (sems s x) - (if ok r \<and> x = y then 1 else 0)"
  "uthread_sem_timedwait now nxt (Some y) d s = Some (r, s') \<Longrightarrow>
     s_value (sems s' x) = s_value (sems s x) - (if ok r \<and> x = y then 1 else 0)"
  "uthread_sem_post (Some y) s = Some (r, s') \<Longrightarrow>
     s_value (sems s' x) = s_value (sems s x) + (if ok r \<and> x = y then 1 else 0)"
  "uthread_sem_destroy z s = Some (r, s') \<Longrightarrow> s_value (sems s' x) = s_value (sems s x)"
  "uthread_sem_getvalue z p s = Some (r, s') \<Longrightarrow> sems s' = sems s"
  "uthread_sem_wait nxt None s = Some (r, s') \<Longrightarrow> sems s' = sems s"
  "uthread_sem_trywait None s = Some (r, s') \<Longrightarrow> sems s' = sems s"
  "uthread_sem_timedwait now nxt None d s = Some (r, s') \<Longrightarrow> sems s' = sems s"
  "uthread_sem_post None s = Some (r, s') \<Longrightarrow> sems s' = sems s"
  "y \<noteq> x \<Longrightarrow> uthread_sem_init mem (Some y) ps v s = Some (r, s') \<Longrightarrow> sems s' x = sems s x"
  "uthread_sem_init mem None ps v s = Some (r, s') \<Longrightarrow> sems s' = sems s"
  by (auto simp: uthread_sem_wait_def uthread_sem_trywait_def uthread_sem_timedwait_def
      uthread_sem_post_def uthread_sem_destroy_def uthread_sem_getvalue_def uthread_sem_init_def
      Let_def
      dest!: retD sem_wait_loop_value [where x = x] sem_timedwait_loop_value [where x = x]
      split: option.splits if_splits)


lemma succeeded_simp [simp]: "succeeded (Event w k l r) = ok r"
  by (simp add: succeeded_def)

lemma step_sem_value:
  assumes "step i l s = Some (r, s')" and "sem_init_of l \<noteq> Some x"
  shows "s_value (sems s' x) = s_value (sems s x) + word_of_int (sem_delta x (Event (current s) (pc s) l r))"
proof (cases l)
  case (Call c)
  with assms have a: "api i c s = Some (r, s')" and u: "pc s = User"
    by (auto simp: step_def split: if_splits)
  show ?thesis
  proof (cases c)
    case (Sem_wait z)
    then show ?thesis using a Call sem_fns_value(1) [where x = x] sem_fns_value(7)
      by (cases z) (auto simp: api_def sem_delta_def sem_wait_of_def sem_post_of_def)
  next
    case (Sem_trywait z)
    then show ?thesis using a Call sem_fns_value(2) [where x = x] sem_fns_value(8)
      by (cases z) (auto simp: api_def sem_delta_def sem_wait_of_def sem_post_of_def)
  next
    case (Sem_timedwait z d)
    then show ?thesis using a Call sem_fns_value(3) [where x = x] sem_fns_value(9)
      by (cases z) (auto simp: api_def sem_delta_def sem_wait_of_def sem_post_of_def)
  next
    case (Sem_post z)
    then show ?thesis using a Call sem_fns_value(4) [where x = x] sem_fns_value(10)
      by (cases z) (auto simp: api_def sem_delta_def sem_wait_of_def sem_post_of_def)
  next
    case (Sem_init z p v)
    then show ?thesis using a Call assms(2) sem_fns_value(11) [where x = x] sem_fns_value(12)
      by (cases z) (auto simp: api_def sem_delta_def sem_wait_of_def sem_post_of_def sem_init_of_def)
  next
    case (Create new stack_ok thread attr start ar)
    then show ?thesis using a Call api_create_sems [of i new stack_ok thread attr start ar s r s']
      by (simp add: sem_delta_def sem_wait_of_def sem_post_of_def)
  qed (use a Call in \<open>auto simp: api_def sem_delta_def sem_wait_of_def sem_post_of_def
        context_entry_wrapper_return_def
        dest: mutex_fns_sems cond_fns_sems life_fns_sems sem_fns_value(5,6)\<close>)
next
  case Resume
  with assms have a: "resume i (pc s) s = Some (r, s')" and u: "pc s \<noteq> User"
    by (auto simp: step_def split: if_splits)
  show ?thesis
  proof (cases "pc s")
    case (In_sem_wait y)
    then show ?thesis using a Resume sem_wait_loop_value [of "i_nxt i" y s r s' x]
      by (auto simp: resume_def sem_delta_def sem_wait_of_def sem_post_of_def)
  next
    case (In_sem_timedwait y d)
    then show ?thesis using a Resume sem_timedwait_resume_value [of "i_now i" "i_now2 i" "i_nxt i" y d s r s' x]
      by (auto simp: resume_def sem_delta_def sem_wait_of_def sem_post_of_def)
  qed (use a Resume in \<open>auto simp: resume_def sem_delta_def sem_wait_of_def sem_post_of_def
        dest!: mutex_fns_sems cond_relock_sems cond_timedwait_loop_sems life_fns_sems retD\<close>)
qed

lemma run_sem_value:
  "run ls s = Some (es, s') \<Longrightarrow> \<forall>l \<in> set (map snd ls). sem_init_of l \<noteq> Some x \<Longrightarrow>
     s_value (sems s' x) = s_value (sems s x) + of_nat (posts x es) - of_nat (waits x es)"
proof (induction ls arbitrary: s es)
  case Nil
  then show ?case by (simp add: posts_def waits_def)
next
  case (Cons a ls)
  obtain i l where a: "a = (i, l)" by (cases a)
  from Cons.prems(1) a obtain r s1 es1 where
    st: "step i l s = Some (r, s1)" and rn: "run ls s1 = Some (es1, s')"
    and es: "es = Event (current s) (pc s) l r # es1"
    by (auto split: option.splits)
  have ni: "sem_init_of l \<noteq> Some x" using Cons.prems(2) a by simp
  have "s_value (sems s' x) = s_value (sems s1 x) + of_nat (posts x es1) - of_nat (waits x es1)"
    using Cons.IH [OF rn] Cons.prems(2) by simp
  then show ?case using step_sem_value [OF st ni] es
    by (simp add: posts_def waits_def sem_delta_def)
qed

lemma sint_word_of_int_32:
  "- (2 ^ 31) \<le> k \<Longrightarrow> k < 2 ^ 31 \<Longrightarrow> sint (word_of_int k :: 32 word) = k"
  by (simp add: sint_sbintrunc' signed_take_bit_int_eq_self)

text \<open>
  C8.  A semaphore is initialised to \<open>v0\<close> by a successful \<open>uthread_sem_init\<close>, which
  takes an \<open>unsigned int\<close> and stores it into an \<open>int\<close>; then any execution follows
  in which it is not initialised again.  Every step of any thread, the creation of threads
  included, changes the stored value by exactly \<open>+1\<close> when it is a successful
  \<open>uthread_sem_post\<close> on it, by \<open>-1\<close> when it is a successful return of
  \<open>uthread_sem_wait\<close>, \<open>uthread_sem_trywait\<close> or \<open>uthread_sem_timedwait\<close> on
  it, and not at all otherwise, in the arithmetic of a 32-bit \<open>int\<close>; so after \<open>P\<close>
  successful posts and \<open>W\<close> successful waits the value is \<open>v0 + P - W\<close> in this
  arithmetic, and \<open>uthread_sem_getvalue\<close> stores it read as a signed number.  This is
  the integer \<open>v0 + P - W\<close> whenever that lies between \<open>-2\<^sup>3\<^sup>1\<close> and
  \<open>2\<^sup>3\<^sup>1 - 1\<close>.
\<close>

theorem sem_accounting:
  assumes init: "step i0 (Call (Sem_init (Some x) p v0)) s0 = Some (Some (UTHREAD_SUCCESS, o0), s1)"
    and rn: "run ls s1 = Some (es, s2)"
    and noinit: "\<forall>l \<in> set (map snd ls). sem_init_of l \<noteq> Some x"
    and get: "step i1 (Call (Sem_getvalue (Some x) True)) s2 = Some (Some (UTHREAD_SUCCESS, out), s3)"
  shows "(\<forall>i l s r s'. step i l s = Some (r, s') \<longrightarrow> sem_init_of l \<noteq> Some x \<longrightarrow>
            s_value (sems s' x)
              = s_value (sems s x) + word_of_int (sem_delta x (Event (current s) (pc s) l r)))
       \<and> s_value (sems s2 x) = v0 + of_nat (posts x es) - of_nat (waits x es)
       \<and> out = OutInt (sint (s_value (sems s2 x)))
       \<and> (- (2 ^ 31) \<le> int (unat v0) + int (posts x es) - int (waits x es)
            \<and> int (unat v0) + int (posts x es) - int (waits x es) < 2 ^ 31
          \<longrightarrow> out = OutInt (int (unat v0) + int (posts x es) - int (waits x es)))"
proof -
  have v: "s_value (sems s1 x) = v0"
    using init by (auto simp: step_def api_def uthread_sem_init_def Let_def
        dest!: retD split: if_splits)
  have a: "s_value (sems s2 x) = v0 + of_nat (posts x es) - of_nat (waits x es)"
    using run_sem_value [OF rn noinit] v by simp
  have b: "out = OutInt (sint (s_value (sems s2 x)))"
    using get by (auto simp: step_def api_def uthread_sem_getvalue_def returns_out_def
        returns_def split: if_splits)
  let ?k = "int (unat v0) + int (posts x es) - int (waits x es)"
  have c: "v0 + of_nat (posts x es) - of_nat (waits x es) = (word_of_int ?k :: 32 word)"
    by simp
  have d: "sint (word_of_int ?k :: 32 word) = ?k" if "- (2 ^ 31) \<le> ?k" "?k < 2 ^ 31"
    using that by (rule sint_word_of_int_32)
  have e: "out = OutInt (sint (word_of_int ?k :: 32 word))"
    using a b c by metis
  have f: "\<forall>i l s r s'. step i l s = Some (r, s') \<longrightarrow> sem_init_of l \<noteq> Some x \<longrightarrow>
            s_value (sems s' x)
              = s_value (sems s x) + word_of_int (sem_delta x (Event (current s) (pc s) l r))"
    using step_sem_value by blast
  have "out = OutInt ?k" if "- (2 ^ 31) \<le> ?k \<and> ?k < 2 ^ 31"
    using d e that by metis
  then show ?thesis using f a b by blast
qed


definition inp0 :: inp where
  "inp0 = \<lparr>i_mem = True, i_now = 0, i_now2 = 0, i_nxt = None\<rparr>"

definition sem_demo_run :: "(inp \<times> label) list" where
  "sem_demo_run =
     [(inp0, Call (Sem_post (Some 0))), (inp0, Call (Create (Some 2) True True None (Some 7) 0)),
      (inp0, Call (Sem_trywait (Some 0))), (inp0, Call (Sem_trywait (Some 0))),
      (inp0, Call (Sem_trywait (Some 0)))]"

lemmas sem_eval =
  step_def api_def pc_def sys0_def inp0_def returns_def returns_out_def
  uthread_sem_init_def uthread_sem_post_def uthread_sem_trywait_def uthread_sem_getvalue_def
  wait_queue_init_def wait_queue_empty_def upd_sem_def upd_thread_def sem0_def tcb0_def Let_def
  uthread_create_def fresh_def thread_alloc_def ops_enqueue_def UTHREAD_STACK_DEFAULT_def
  UTHREAD_STACK_MIN_def UTHREAD_GUARD_SIZE_def UTHREAD_MAX_THREADS_def SIZE_MAX_def

theorem sem_accounting_witness:
  "\<exists>s1 es s2 s3.
      step inp0 (Call (Sem_init (Some 0) 0 1)) sys0 = Some (Some (UTHREAD_SUCCESS, NoOut), s1)
    \<and> run sem_demo_run s1 = Some (es, s2)
    \<and> posts 0 es = 1 \<and> waits 0 es = 2
    \<and> step inp0 (Call (Sem_getvalue (Some 0) True)) s2 = Some (Some (UTHREAD_SUCCESS, OutInt 0), s3)"
proof -
  define s1 where "s1 = snd (the (step inp0 (Call (Sem_init (Some 0) 0 1)) sys0))"
  define r where "r = the (run sem_demo_run s1)"
  define g where "g = the (step inp0 (Call (Sem_getvalue (Some 0) True)) (snd r))"
  have 1: "step inp0 (Call (Sem_init (Some 0) 0 1)) sys0 = Some (Some (UTHREAD_SUCCESS, NoOut), s1)"
    unfolding s1_def by (simp add: sem_eval)
  have 2: "run sem_demo_run s1 = Some (fst r, snd r)"
    unfolding r_def s1_def sem_demo_run_def by (simp add: sem_eval)
  have p: "posts 0 (fst r) = 1" "waits 0 (fst r) = 2"
    unfolding r_def s1_def sem_demo_run_def
    by (simp_all add: sem_eval posts_def waits_def sem_post_of_def sem_wait_of_def)
  have 3: "\<forall>l \<in> set (map snd sem_demo_run). sem_init_of l \<noteq> Some 0"
    by (simp add: sem_demo_run_def sem_init_of_def)
  have 4: "step inp0 (Call (Sem_getvalue (Some 0) True)) (snd r)
             = Some (Some (UTHREAD_SUCCESS, snd (the (fst g))), snd g)"
    unfolding g_def r_def s1_def sem_demo_run_def by (simp add: sem_eval)
  from sem_accounting [OF 1 2 3 4] p have "snd (the (fst g)) = OutInt 0"
    by simp
  with 1 2 p 4 show ?thesis by metis
qed

text \<open>
  An initial value above \<open>INT_MAX\<close>: \<open>uthread_sem_init\<close> accepts
  \<open>2\<^sup>3\<^sup>1\<close>, and with no post and no wait \<open>uthread_sem_getvalue\<close> stores
  \<open>-2\<^sup>3\<^sup>1\<close>.
\<close>

definition sem_big :: sys where
  "sem_big = snd (the (step inp0 (Call (Sem_init (Some 0) 0 2147483648)) sys0))"

theorem sem_getvalue_above_int_max:
  "step inp0 (Call (Sem_init (Some 0) 0 2147483648)) sys0
      = Some (Some (UTHREAD_SUCCESS, NoOut), sem_big)
   \<and> run [] sem_big = Some ([], sem_big)
   \<and> posts 0 [] = 0 \<and> waits 0 [] = 0
   \<and> map_option fst (step inp0 (Call (Sem_getvalue (Some 0) True)) sem_big)
      = Some (Some (UTHREAD_SUCCESS, OutInt (- 2147483648)))
   \<and> (- 2147483648 :: int) \<noteq> 2147483648 + int (posts 0 []) - int (waits 0 [])"
  by (simp add: sem_big_def sem_eval posts_def waits_def)

subsection \<open>Condition variables return with the mutex held\<close>

definition holds :: "sys \<Rightarrow> nat \<Rightarrow> tid \<Rightarrow> bool" where
  "holds s m t = (m_lock (mutexes s m) = 1 \<and> m_owner (mutexes s m) = Some t)"

definition cond_waiting_on :: "context_t \<Rightarrow> label \<Rightarrow> nat option" where
  "cond_waiting_on k l =
     (case l of
        Call (Cond_wait c m) \<Rightarrow> m
      | Call (Cond_timedwait c m d) \<Rightarrow> m
      | Call _ \<Rightarrow> None
      | Resume \<Rightarrow>
         (case k of
            In_cond_wait c m \<Rightarrow> Some m
          | In_cond_wait_relock c m \<Rightarrow> Some m
          | In_cond_timedwait c m d \<Rightarrow> Some m
          | In_cond_timedwait_relock c m rc \<Rightarrow> Some m
          | _ \<Rightarrow> None))"

lemma mutexes_frames [simp]:
  "mutexes (wait_queue_add q t s) = mutexes s"
  "mutexes (snd (wait_queue_remove q s)) = mutexes s"
  "mutexes (snd (wait_queue_remove_specific q t s)) = mutexes s"
  "mutexes (scheduler_unblock t s) = mutexes s"
  "mutexes (wait_queue_wake_one q s) = mutexes s"
  "mutexes (ops_enqueue u s) = mutexes s"
  "mutexes (ops_remove u s) = mutexes s"
  "mutexes (upd_cond c f s) = mutexes s"
  "mutexes (upd_sem c g s) = mutexes s"
  by (auto simp: wait_queue_add_def wait_queue_remove_def wait_queue_remove_specific_def
      scheduler_unblock_def wait_queue_wake_one_def ops_enqueue_def ops_remove_def
      upd_cond_def upd_sem_def
      split: option.splits list.splits)

lemma current_frames [simp]:
  "current (wait_queue_add q t s) = current s"
  "current (snd (wait_queue_remove q s)) = current s"
  "current (snd (wait_queue_remove_specific q t s)) = current s"
  "current (scheduler_unblock t s) = current s"
  "current (wait_queue_wake_one q s) = current s"
  "current (ops_enqueue u s) = current s"
  "current (ops_remove u s) = current s"
  "current (upd_cond c f s) = current s"
  "current (upd_sem c g s) = current s"
  "current (mutex_acquire m s) = current s"
  "current (cond_release_mutex m s) = current s"
  by (auto simp: wait_queue_add_def wait_queue_remove_def wait_queue_remove_specific_def
      scheduler_unblock_def wait_queue_wake_one_def ops_enqueue_def ops_remove_def
      upd_cond_def upd_sem_def mutex_acquire_def cond_release_mutex_def Let_def
      split: option.splits list.splits)

lemma returns_mutexes:
  "returns e s = Some (r, s') \<Longrightarrow> r = Some (e, NoOut) \<and> mutexes s' = mutexes s \<and> current s' = current s"
  by (auto simp: returns_def split: option.splits)

lemma stops_at_None: "stops_at k nxt s = Some (Some x, s') \<Longrightarrow> False"
  by (auto simp: stops_at_def split: option.splits)

lemma cond_relock_holds:
  "cond_relock k rc nxt m s = Some (Some (e, out), s') \<Longrightarrow> current s = Some t \<Longrightarrow> holds s' m t"
  by (auto simp: cond_relock_def holds_def mutex_acquire_def
      dest!: returns_mutexes stops_at_None split: option.splits if_splits)

lemma cond_timedwait_loop_holds:
  "cond_timedwait_loop now nxt c m d s = Some (Some (e, out), s') \<Longrightarrow> current s = Some t \<Longrightarrow> holds s' m t"
  by (auto simp: cond_timedwait_loop_def
      dest!: stops_at_None dest: cond_relock_holds split: option.splits if_splits)

lemma cond_wait_call_holds:
  "uthread_cond_wait mem nxt c (Some m) s = Some (Some (e, out), s') \<Longrightarrow> current s = Some t \<Longrightarrow>
     holds s m t \<Longrightarrow> holds s' m t"
  by (auto simp: uthread_cond_wait_def cond_lazy_init_def holds_def Let_def
      dest!: returns_mutexes stops_at_None split: option.splits if_splits sum.splits)

lemma cond_timedwait_call_holds:
  "uthread_cond_timedwait mem now nxt c (Some m) d s = Some (Some (e, out), s') \<Longrightarrow> current s = Some t \<Longrightarrow>
     holds s m t \<Longrightarrow> holds s' m t"
  apply (auto simp: uthread_cond_timedwait_def cond_lazy_init_def Let_def
      dest!: returns_mutexes split: option.splits if_splits sum.splits)
        apply (auto simp: holds_def dest: cond_timedwait_loop_holds [where t = t])
  done

text \<open>
  C4.  A step in which \<open>uthread_cond_wait\<close> or \<open>uthread_cond_timedwait\<close> returns
  (with any code: success, timed out, or an error) is either the call itself or the
  continuation of the function after one of its calls of \<open>scheduler_schedule\<close>.  When
  the caller held the mutex at entry, it holds the mutex after every such step: the lock
  flag is set and the owner is the calling thread.
\<close>

theorem cond_wait_returns_holding:
  assumes cur: "current s = Some t"
    and st: "step i l s = Some (Some (rc, out), s')"
    and fn: "cond_waiting_on (pc s) l = Some m"
    and entry: "l \<noteq> Resume \<longrightarrow> holds s m t"
  shows "holds s' m t"
proof (cases l)
  case (Call c)
  with st have a: "api i c s = Some (Some (rc, out), s')" by (auto simp: step_def split: if_splits)
  from fn Call consider cv where "c = Cond_wait cv (Some m)"
    | cv d where "c = Cond_timedwait cv (Some m) d"
    by (cases c) (auto simp: cond_waiting_on_def)
  then show ?thesis
  proof cases
    case 1
    then show ?thesis using a cur entry Call cond_wait_call_holds by (auto simp: api_def)
  next
    case 2
    then show ?thesis using a cur entry Call cond_timedwait_call_holds by (auto simp: api_def)
  qed
next
  case Resume
  with st have a: "resume i (pc s) s = Some (Some (rc, out), s')" by (auto simp: step_def split: if_splits)
  from fn Resume show ?thesis using a cur
    by (cases "pc s")
       (auto simp: cond_waiting_on_def resume_def dest: cond_relock_holds cond_timedwait_loop_holds)
qed


definition cond_demo :: sys where
  "cond_demo =
     sys0\<lparr>mutexes := (\<lambda>_. mutex0)(0 := \<lparr>m_lock = 1, m_owner = Some 1,
              m_waiters = Some (MutexQ 0), m_type = UTHREAD_MUTEX_NORMAL,
              m_recursion_count = 1, m_initialized = True\<rparr>)\<rparr>"

definition inp_late :: inp where
  "inp_late = \<lparr>i_mem = True, i_now = 10, i_now2 = 10, i_nxt = None\<rparr>"

theorem cond_wait_returns_holding_witness:
  "\<exists>s'. step inp_late (Call (Cond_timedwait (Some 0) (Some 0) (Some 5))) cond_demo
            = Some (Some (UTHREAD_ETIMEDOUT, NoOut), s')
        \<and> holds cond_demo 0 1 \<and> holds s' 0 1"
proof -
  define g where "g = snd (the (step inp_late (Call (Cond_timedwait (Some 0) (Some 0) (Some 5))) cond_demo))"
  have 1: "step inp_late (Call (Cond_timedwait (Some 0) (Some 0) (Some 5))) cond_demo
            = Some (Some (UTHREAD_ETIMEDOUT, NoOut), g)"
    unfolding g_def
    by (simp add: step_def api_def pc_def cond_demo_def sys0_def inp_late_def
        uthread_cond_timedwait_def cond_lazy_init_def cond_timedwait_loop_def cond_relock_def
        cond_release_mutex_def wait_queue_add_def wait_queue_remove_specific_def
        wait_queue_init_def wait_queue_empty_def mutex_acquire_def returns_def
        upd_cond_def upd_mutex_def upd_thread_def cond0_def tcb0_def Let_def)
  have 2: "current cond_demo = Some 1" by (simp add: cond_demo_def sys0_def)
  have 3: "cond_waiting_on (pc cond_demo) (Call (Cond_timedwait (Some 0) (Some 0) (Some 5))) = Some 0"
    by (simp add: cond_waiting_on_def)
  have 4: "holds cond_demo 0 1" by (simp add: holds_def cond_demo_def sys0_def)
  from cond_wait_returns_holding [OF 2 1 3] 4 have "holds g 0 1" by simp
  with 1 4 show ?thesis by blast
qed


subsection \<open>Join returns the exit value\<close>

definition exit_of :: "event \<Rightarrow> (tid \<times> nat) option" where
  "exit_of e =
     (case ev_who e of None \<Rightarrow> None
      | Some t \<Rightarrow>
         (case ev_did e of
            Call (Exit v) \<Rightarrow> Some (t, v)
          | Call (Start_returns v) \<Rightarrow> Some (t, v)
          | _ \<Rightarrow> None))"

fun last_exit :: "tid \<Rightarrow> event list \<Rightarrow> nat option" where
  "last_exit t [] = None"
| "last_exit t (e # es) =
     (case last_exit t es of
        Some v \<Rightarrow> Some v
      | None \<Rightarrow> (case exit_of e of None \<Rightarrow> None | Some (u, v) \<Rightarrow> if u = t then Some v else None))"

definition er :: "sys \<Rightarrow> tid \<Rightarrow> bool \<times> nat" where
  "er s t = (exited (threads s t), retval (threads s t))"

lemma er_frames [simp]:
  "er (wait_queue_add q t s) = er s"
  "er (wait_queue_init q s) = er s"
  "er (snd (wait_queue_remove q s)) = er s"
  "er (snd (wait_queue_remove_specific q t s)) = er s"
  "er (scheduler_unblock t s) = er s"
  "er (wait_queue_wake_one q s) = er s"
  "er (ops_enqueue u s) = er s"
  "er (ops_remove u s) = er s"
  "er (upd_cond c f s) = er s"
  "er (upd_sem c g s) = er s"
  "er (upd_mutex c h s) = er s"
  "er (mutex_acquire m s) = er s"
  "er (mutex_release m s) = er s"
  "er (cond_release_mutex m s) = er s"
  by (auto simp: er_def fun_eq_iff wait_queue_add_def wait_queue_remove_def wait_queue_remove_specific_def
      scheduler_unblock_def wait_queue_wake_one_def ops_enqueue_def ops_remove_def
      upd_cond_def upd_sem_def mutex_acquire_def mutex_release_def cond_release_mutex_def Let_def
      wait_queue_init_def
      split: option.splits list.splits)

lemma er_allocated [simp]: "er (s\<lparr>allocated := X\<rparr>) = er s"
  by (simp add: er_def fun_eq_iff)

lemma er_wake_all [simp]: "er (wait_queue_wake_all q s) = er s"
  by (rule wake_all_pres [where P = "\<lambda>s'. er s' = er s"]) simp_all

lemma er_upd_thread:
  "exited (f (threads s t)) = exited (threads s t) \<Longrightarrow> retval (f (threads s t)) = retval (threads s t) \<Longrightarrow>
     er (upd_thread t f s) = er s"
  by (auto simp: er_def fun_eq_iff)

lemma er_schedule: "scheduler_schedule nxt s = Some s' \<Longrightarrow> er s' = er s"
  by (auto simp: scheduler_schedule_def Let_def er_def fun_eq_iff split: option.splits if_splits)

lemma er_ret:
  "stops_at k nxt s = Some (r, s') \<Longrightarrow> er s' = er s"
  "returns e s = Some (r, s') \<Longrightarrow> er s' = er s"
  "returns_out e out s = Some (r, s') \<Longrightarrow> er s' = er s"
  "returns_void s = Some (r, s') \<Longrightarrow> er s' = er s"
  by (auto simp: stops_at_def returns_def returns_out_def returns_void_def er_upd_thread
      dest!: er_schedule split: option.splits)

lemma er_mutex_fns:
  "uthread_mutex_lock mem nxt m s = Some (r, s') \<Longrightarrow> er s' = er s"
  "uthread_mutex_trylock mem m s = Some (r, s') \<Longrightarrow> er s' = er s"
  "uthread_mutex_unlock m s = Some (r, s') \<Longrightarrow> er s' = er s"
  "mutex_lock_loop nxt k s = Some (r, s') \<Longrightarrow> er s' = er s"
  by (auto simp: uthread_mutex_lock_def uthread_mutex_trylock_def uthread_mutex_unlock_def
      mutex_lock_loop_def mutex_lazy_init_def Let_def er_upd_thread
      dest!: er_ret split: option.splits sum.splits if_splits)

lemma er_cond_relock:
  "cond_relock k rc nxt m s = Some (r, s') \<Longrightarrow> er s' = er s"
  by (auto simp: cond_relock_def er_upd_thread dest!: er_ret split: option.splits if_splits)

lemma er_cond_timedwait_loop:
  "cond_timedwait_loop now nxt c m d s = Some (r, s') \<Longrightarrow> er s' = er s"
  by (auto simp: cond_timedwait_loop_def dest!: er_ret er_cond_relock split: option.splits if_splits)

lemma er_cond_fns:
  "uthread_cond_wait mem nxt c m s = Some (r, s') \<Longrightarrow> er s' = er s"
  "uthread_cond_timedwait mem now nxt c m d s = Some (r, s') \<Longrightarrow> er s' = er s"
  "uthread_cond_signal mem c s = Some (r, s') \<Longrightarrow> er s' = er s"
  "uthread_cond_broadcast mem c s = Some (r, s') \<Longrightarrow> er s' = er s"
  by (auto simp: uthread_cond_wait_def uthread_cond_timedwait_def uthread_cond_signal_def
      uthread_cond_broadcast_def cond_lazy_init_def Let_def er_upd_thread
      dest!: er_ret er_cond_timedwait_loop split: option.splits sum.splits if_splits)

lemma er_sem_loops:
  "sem_wait_loop nxt y s = Some (r, s') \<Longrightarrow> er s' = er s"
  "sem_timedwait_loop now nxt y d s = Some (r, s') \<Longrightarrow> er s' = er s"
  by (auto simp: sem_wait_loop_def sem_timedwait_loop_def er_upd_thread
      dest!: er_ret split: option.splits if_splits)

lemma er_sem_fns:
  "uthread_sem_wait nxt x s = Some (r, s') \<Longrightarrow> er s' = er s"
  "uthread_sem_trywait x s = Some (r, s') \<Longrightarrow> er s' = er s"
  "uthread_sem_timedwait now nxt x d s = Some (r, s') \<Longrightarrow> er s' = er s"
  "sem_timedwait_resume now now2 nxt y d' s = Some (r, s') \<Longrightarrow> er s' = er s"
  "uthread_sem_post x s = Some (r, s') \<Longrightarrow> er s' = er s"
  "uthread_sem_destroy x s = Some (r, s') \<Longrightarrow> er s' = er s"
  "uthread_sem_getvalue x p s = Some (r, s') \<Longrightarrow> er s' = er s"
  "uthread_sem_init mem x ps v s = Some (r, s') \<Longrightarrow> er s' = er s"
  by (auto simp: uthread_sem_wait_def uthread_sem_trywait_def uthread_sem_timedwait_def
      uthread_sem_post_def uthread_sem_destroy_def uthread_sem_getvalue_def uthread_sem_init_def
      sem_timedwait_resume_def Let_def
      dest!: er_ret er_sem_loops split: option.splits if_splits)

lemma er_join:
  "join_loop nxt u p s = Some (r, s') \<Longrightarrow> er s' = er s"
  "uthread_join nxt t p s = Some (r, s') \<Longrightarrow> er s' = er s"
  "uthread_yield nxt s = Some (r, s') \<Longrightarrow> er s' = er s"
  by (auto simp: uthread_join_def join_loop_def uthread_yield_def Let_def er_upd_thread
      dest!: er_ret split: option.splits sum.splits if_splits)

lemma er_exit:
  "uthread_exit nxt v s = Some (r, s') \<Longrightarrow> \<exists>c. current s = Some c \<and> er s' = (er s)(c := (True, v))"
  by (auto simp: uthread_exit_def Let_def er_upd_thread
      dest!: er_ret split: option.splits sum.splits if_splits)
     (auto simp: er_def fun_eq_iff)

lemma join_loop_out:
  "join_loop nxt t True s = Some (Some (rc, out), s') \<Longrightarrow>
     exited (threads s t) \<and> out = OutPtr (retval (threads s t))"
  by (auto simp: join_loop_def returns_out_def dest!: stops_at_None split: option.splits if_splits)


text \<open>A created thread has not exited; the other blocks are as they were.\<close>

lemma er_create:
  assumes "uthread_create new stack_ok thread attr start a s = Some (r, s')"
    and "exited (threads s' t)"
  shows "er s' t = er s t"
proof -
  from uthread_create_cases [OF assms(1)] show ?thesis
  proof (elim disjE exE conjE)
    fix e assume "returns e s = Some (r, s')"
    then show ?thesis by (simp add: er_ret(2))
  next
    fix u n r0
    assume n: "\<not> exited n"
      and "returns UTHREAD_SUCCESS
             (ops_enqueue u (s\<lparr>threads := (threads s)(u := n),
                               allocated := insert u (allocated s)\<rparr>)) = Some (r0, s')"
    then have "er s' = er (s\<lparr>threads := (threads s)(u := n)\<rparr>)"
      by (auto dest!: er_ret(2) simp: er_def fun_eq_iff ops_enqueue_def)
    then have "er s' t = er (s\<lparr>threads := (threads s)(u := n)\<rparr>) t" by simp
    then show ?thesis using n assms(2) by (auto simp: er_def split: if_splits)
  qed
qed

lemma step_er:
  assumes "step i l s = Some (r, s')" and ex: "exited (threads s' t)"
  shows "er s' t = (case exit_of (Event (current s) (pc s) l r) of
                      None \<Rightarrow> er s t | Some (c, v) \<Rightarrow> if c = t then (True, v) else er s t)"
proof (cases l)
  case (Call c)
  with assms have a: "api i c s = Some (r, s')" by (auto simp: step_def split: if_splits)
  show ?thesis
  proof (cases c)
    case (Create new stack_ok thread attr start ar)
    then have "uthread_create new stack_ok thread attr start ar s = Some (r, s')"
      using a by (auto simp: api_def split: option.splits if_splits)
    from er_create [OF this ex] show ?thesis using Call Create
      by (simp add: exit_of_def split: option.splits)
  qed (use a Call in \<open>auto simp: api_def exit_of_def context_entry_wrapper_return_def
         dest: er_mutex_fns er_cond_fns er_sem_fns er_join er_exit split: option.splits\<close>)
next
  case Resume
  with assms have a: "resume i (pc s) s = Some (r, s')" by (auto simp: step_def split: if_splits)
  show ?thesis using a Resume
    by (cases "pc s")
       (auto simp: resume_def exit_of_def
         dest: er_mutex_fns er_cond_relock er_cond_timedwait_loop er_sem_loops er_sem_fns er_join er_ret
         split: option.splits)
qed

lemma run_last_exit:
  "run ls s = Some (es, s') \<Longrightarrow> exited (threads s' t) \<Longrightarrow>
     er s' t = (case last_exit t es of None \<Rightarrow> er s t | Some v \<Rightarrow> (True, v))"
proof (induction ls arbitrary: s es)
  case Nil
  then show ?case by simp
next
  case (Cons a ls)
  obtain i l where a: "a = (i, l)" by (cases a)
  from Cons.prems(1) a obtain r s1 es1 where
    st: "step i l s = Some (r, s1)" and rn: "run ls s1 = Some (es1, s')"
    and es: "es = Event (current s) (pc s) l r # es1"
    by (auto split: option.splits)
  note ih = Cons.IH [OF rn Cons.prems(2)]
  show ?case
  proof (cases "last_exit t es1")
    case (Some v)
    then show ?thesis using ih es by simp
  next
    case None
    then have e: "er s' t = er s1 t" using ih by simp
    then have "exited (threads s1 t)" using Cons.prems(2) by (simp add: er_def)
    from step_er [OF st this] e None es show ?thesis
      by (auto split: option.splits)
  qed
qed

text \<open>
  C2.  In an execution that starts while thread \<open>t\<close> has not exited, whenever
  \<open>uthread_join\<close> on \<open>t\<close> returns success, the value it stores through \<open>retval\<close>
  is the argument of the last \<open>uthread_exit\<close> of \<open>t\<close> in the execution: a call by
  the thread itself, or the call \<open>context_entry_wrapper\<close> makes with the value the start
  routine returned.  The step in which the start routine returns \<open>w\<close> is the step of a
  call of \<open>uthread_exit\<close> with \<open>w\<close>: the wrapper forwards the value.
\<close>

theorem join_returns_exit_value:
  assumes alive: "\<not> exited (threads s0 t)"
    and rn: "run ls s0 = Some (es, s)"
    and st: "step i l s = Some (Some (UTHREAD_SUCCESS, out), s')"
    and fn: "l = Call (Join (Some t) True) \<or> (l = Resume \<and> pc s = In_join t True)"
  shows "(\<exists>v. out = OutPtr v \<and> last_exit t es = Some v)
       \<and> (\<forall>j w s1. step j (Call (Start_returns w)) s1 = step j (Call (Exit w)) s1)"
proof -
  have "join_loop (i_nxt i) t True s = Some (Some (UTHREAD_SUCCESS, out), s')"
    using st fn
    by (auto simp: step_def api_def resume_def uthread_join_def returns_def split: if_splits)
  then have e: "exited (threads s t)" and o: "out = OutPtr (retval (threads s t))"
    using join_loop_out by blast+
  from run_last_exit [OF rn e] alive e have "last_exit t es = Some (retval (threads s t))"
    by (auto simp: er_def split: option.splits)
  moreover have "step j (Call (Start_returns w)) s1 = step j (Call (Exit w)) s1" for j w s1
    by (simp add: step_def api_def context_entry_wrapper_return_def)
  ultimately show ?thesis using o by simp
qed

text \<open>
  A thread created by the main thread and joined by it; the thread runs, and its start
  routine returns 42.
\<close>

definition join_demo :: sys where
  "join_demo = snd (the (uthread_create (Some 2) True True None (Some 7) 0 sys0))"

definition join_demo_run :: "(inp \<times> label) list" where
  "join_demo_run =
     [(\<lparr>i_mem = True, i_now = 0, i_now2 = 0, i_nxt = Some 2\<rparr>, Call (Join (Some 2) True)),
      (\<lparr>i_mem = True, i_now = 0, i_now2 = 0, i_nxt = None\<rparr>, Resume),
      (\<lparr>i_mem = True, i_now = 0, i_now2 = 0, i_nxt = Some 1\<rparr>, Call (Start_returns 42))]"

lemmas join_eval =
  step_def api_def resume_def pc_def sys0_def returns_def returns_out_def returns_void_def
  stops_at_def scheduler_schedule_def uthread_create_def uthread_join_def join_loop_def
  uthread_exit_def ops_enqueue_def ops_remove_def upd_thread_def thread_alloc_def tcb0_def
  UTHREAD_STACK_DEFAULT_def UTHREAD_STACK_MIN_def UTHREAD_GUARD_SIZE_def
  UTHREAD_MAX_THREADS_def SIZE_MAX_def
  context_entry_wrapper_return_def Let_def

theorem join_returns_exit_value_witness:
  "\<exists>es s s'. \<not> exited (threads join_demo 2)
     \<and> run join_demo_run join_demo = Some (es, s)
     \<and> step \<lparr>i_mem = True, i_now = 0, i_now2 = 0, i_nxt = None\<rparr> Resume s
           = Some (Some (UTHREAD_SUCCESS, OutPtr 42), s')
     \<and> pc s = In_join 2 True \<and> last_exit 2 es = Some 42"
proof -
  let ?i = "\<lparr>i_mem = True, i_now = 0, i_now2 = 0, i_nxt = None\<rparr>"
  define r where "r = the (run join_demo_run join_demo)"
  define g where "g = the (step ?i Resume (snd r))"
  have 1: "\<not> exited (threads join_demo 2)"
    by (simp add: join_demo_def join_eval)
  have 2: "run join_demo_run join_demo = Some (fst r, snd r)"
    unfolding r_def join_demo_def join_demo_run_def by (simp add: join_eval)
  have 3: "pc (snd r) = In_join 2 True"
    unfolding r_def join_demo_def join_demo_run_def by (simp add: join_eval)
  have 4: "step ?i Resume (snd r) = Some (Some (UTHREAD_SUCCESS, snd (the (fst g))), snd g)"
    unfolding g_def r_def join_demo_def join_demo_run_def by (simp add: join_eval)
  have 5: "last_exit 2 (fst r) = Some 42"
    unfolding r_def join_demo_def join_demo_run_def by (simp add: join_eval exit_of_def)
  from join_returns_exit_value [OF 1 2 4] 3 5 have "snd (the (fst g)) = OutPtr 42"
    by auto
  with 1 2 3 4 5 show ?thesis by metis
qed
subsection \<open>Queues and blocked threads\<close>

text \<open>
  What the library keeps true of its queues between two steps of an execution.  The wait
  queue pointer of a primitive is null or the queue allocated for it (\<open>ptr_ok\<close>).  A
  thread linked into a wait queue has \<open>blocked_queue\<close> pointing at that queue and is
  linked once (\<open>wq_ok\<close>); a thread in the run queue is in no wait queue and is there
  once (\<open>rq_ok\<close>); a thread registered as the joiner of a thread that has not exited
  is in no queue, and of one such thread only (\<open>joiners_ok\<close>); the running thread is
  not in the run queue, has not exited, is not waiting in \<open>uthread_join\<close>
  (\<open>cur_ok\<close>) and is in no wait queue (\<open>cur_unblocked\<close>).
\<close>

definition ptr_ok :: "sys \<Rightarrow> bool" where
  "ptr_ok s \<longleftrightarrow>
     (\<forall>m q. m_waiters (mutexes s m) = Some q \<longrightarrow> q = MutexQ m)
   \<and> (\<forall>c q. c_waiters (conds s c) = Some q \<longrightarrow> q = CondQ c)
   \<and> (\<forall>x q. s_waiters (sems s x) = Some q \<longrightarrow> q = SemQ x)"

definition wq_ok :: "sys \<Rightarrow> bool" where
  "wq_ok s \<longleftrightarrow>
     (\<forall>q t. t \<in> set (wqs s q) \<longrightarrow>
         blocked_queue (threads s t) = Some q \<and> \<not> exited (threads s t))
   \<and> (\<forall>q. distinct (wqs s q))"

definition rq_ok :: "sys \<Rightarrow> bool" where
  "rq_ok s \<longleftrightarrow>
     (\<forall>t. t \<in> set (runq s) \<longrightarrow>
         blocked_queue (threads s t) = None \<and> \<not> exited (threads s t))
   \<and> distinct (runq s)"

definition joiners_ok :: "sys \<Rightarrow> bool" where
  "joiners_ok s \<longleftrightarrow>
     (\<forall>t j. joiner (threads s t) = Some j \<longrightarrow> \<not> exited (threads s t) \<longrightarrow>
          j \<notin> set (runq s) \<and> blocked_queue (threads s j) = None \<and> \<not> exited (threads s j))
   \<and> (\<forall>t t' j. joiner (threads s t) = Some j \<longrightarrow> joiner (threads s t') = Some j \<longrightarrow>
          \<not> exited (threads s t) \<longrightarrow> t \<noteq> t' \<longrightarrow> exited (threads s t'))"

definition cur_ok :: "sys \<Rightarrow> bool" where
  "cur_ok s \<longleftrightarrow>
     (\<forall>c. current s = Some c \<longrightarrow>
        c \<notin> set (runq s) \<and> \<not> exited (threads s c)
        \<and> (\<forall>t. joiner (threads s t) = Some c \<longrightarrow> exited (threads s t)))"

definition cur_unblocked :: "sys \<Rightarrow> bool" where
  "cur_unblocked s \<longleftrightarrow> (\<forall>c. current s = Some c \<longrightarrow> blocked_queue (threads s c) = None)"

definition base :: "sys \<Rightarrow> bool" where
  "base s \<longleftrightarrow> wq_ok s \<and> rq_ok s \<and> joiners_ok s"

definition mid :: "sys \<Rightarrow> bool" where
  "mid s \<longleftrightarrow> base s \<and> cur_ok s"

definition sched_inv :: "sys \<Rightarrow> bool" where
  "sched_inv s \<longleftrightarrow> mid s \<and> cur_unblocked s"

lemma wq_okI:
  "(\<And>q t. t \<in> set (wqs s q) \<Longrightarrow>
      blocked_queue (threads s t) = Some q \<and> \<not> exited (threads s t)) \<Longrightarrow>
   (\<And>q. distinct (wqs s q)) \<Longrightarrow> wq_ok s"
  unfolding wq_ok_def by blast

lemma wq_okD:
  "wq_ok s \<Longrightarrow> t \<in> set (wqs s q) \<Longrightarrow> blocked_queue (threads s t) = Some q"
  "wq_ok s \<Longrightarrow> distinct (wqs s q)"
  "wq_ok s \<Longrightarrow> t \<in> set (wqs s q) \<Longrightarrow> \<not> exited (threads s t)"
  unfolding wq_ok_def by blast+

lemma rq_okI:
  "(\<And>t. t \<in> set (runq s) \<Longrightarrow>
      blocked_queue (threads s t) = None \<and> \<not> exited (threads s t)) \<Longrightarrow>
   distinct (runq s) \<Longrightarrow> rq_ok s"
  unfolding rq_ok_def by blast

lemma rq_okD:
  "rq_ok s \<Longrightarrow> t \<in> set (runq s) \<Longrightarrow> blocked_queue (threads s t) = None"
  "rq_ok s \<Longrightarrow> distinct (runq s)"
  "rq_ok s \<Longrightarrow> t \<in> set (runq s) \<Longrightarrow> \<not> exited (threads s t)"
  unfolding rq_ok_def by blast+

lemma joiners_okI:
  "(\<And>t j. joiner (threads s t) = Some j \<Longrightarrow> \<not> exited (threads s t) \<Longrightarrow>
      j \<notin> set (runq s) \<and> blocked_queue (threads s j) = None \<and> \<not> exited (threads s j)) \<Longrightarrow>
   (\<And>t t' j. joiner (threads s t) = Some j \<Longrightarrow> joiner (threads s t') = Some j \<Longrightarrow>
      \<not> exited (threads s t) \<Longrightarrow> \<not> exited (threads s t') \<Longrightarrow> t = t') \<Longrightarrow> joiners_ok s"
  unfolding joiners_ok_def by blast

lemma joiners_okD:
  "joiners_ok s \<Longrightarrow> joiner (threads s t) = Some j \<Longrightarrow> \<not> exited (threads s t) \<Longrightarrow> j \<notin> set (runq s)"
  "joiners_ok s \<Longrightarrow> joiner (threads s t) = Some j \<Longrightarrow> \<not> exited (threads s t) \<Longrightarrow>
     blocked_queue (threads s j) = None"
  "joiners_ok s \<Longrightarrow> joiner (threads s t) = Some j \<Longrightarrow> joiner (threads s t') = Some j \<Longrightarrow>
      \<not> exited (threads s t) \<Longrightarrow> \<not> exited (threads s t') \<Longrightarrow> t = t'"
  "joiners_ok s \<Longrightarrow> joiner (threads s t) = Some j \<Longrightarrow> \<not> exited (threads s t) \<Longrightarrow>
     \<not> exited (threads s j)"
  unfolding joiners_ok_def by blast+

lemma cur_okI:
  "(\<And>c. current s = Some c \<Longrightarrow> c \<notin> set (runq s) \<and> \<not> exited (threads s c)) \<Longrightarrow>
   (\<And>c t. current s = Some c \<Longrightarrow> joiner (threads s t) = Some c \<Longrightarrow> exited (threads s t)) \<Longrightarrow> cur_ok s"
  unfolding cur_ok_def by blast

lemma cur_okD:
  "cur_ok s \<Longrightarrow> current s = Some c \<Longrightarrow> c \<notin> set (runq s)"
  "cur_ok s \<Longrightarrow> current s = Some c \<Longrightarrow> joiner (threads s t) = Some c \<Longrightarrow> exited (threads s t)"
  "cur_ok s \<Longrightarrow> current s = Some c \<Longrightarrow> \<not> exited (threads s c)"
  unfolding cur_ok_def by blast+

lemma cur_unblockedD:
  "cur_unblocked s \<Longrightarrow> current s = Some c \<Longrightarrow> blocked_queue (threads s c) = None"
  unfolding cur_unblocked_def by blast

text \<open>congruence: the invariants depend only on queues, run queue, current, and three fields\<close>

lemma base_cong:
  assumes "wqs s' = wqs s" "runq s' = runq s"
    and "\<And>t. blocked_queue (threads s' t) = blocked_queue (threads s t)"
    and "\<And>t. joiner (threads s' t) = joiner (threads s t)"
    and "\<And>t. exited (threads s' t) = exited (threads s t)"
  shows "wq_ok s' = wq_ok s" "rq_ok s' = rq_ok s" "joiners_ok s' = joiners_ok s"
  unfolding wq_ok_def rq_ok_def joiners_ok_def assms by (rule refl)+



lemma joiners_ok_frame:
  assumes j0: "joiners_ok s"
    and jn: "\<And>u. joiner (threads s' u) = joiner (threads s u)"
    and ex: "\<And>u. exited (threads s' u) = exited (threads s u)"
    and st: "\<And>t j. joiner (threads s t) = Some j \<Longrightarrow> \<not> exited (threads s t) \<Longrightarrow>
                j \<notin> set (runq s') \<and> blocked_queue (threads s' j) = None"
  shows "joiners_ok s'"
proof (rule joiners_okI)
  fix t j assume "joiner (threads s' t) = Some j" "\<not> exited (threads s' t)"
  then have a: "joiner (threads s t) = Some j" "\<not> exited (threads s t)" by (simp_all add: jn ex)
  show "j \<notin> set (runq s') \<and> blocked_queue (threads s' j) = None \<and> \<not> exited (threads s' j)"
    using st [OF a] joiners_okD(4) [OF j0 a] by (simp add: ex)
next
  fix t t' j assume "joiner (threads s' t) = Some j" "joiner (threads s' t') = Some j"
    "\<not> exited (threads s' t)" "\<not> exited (threads s' t')"
  then have "joiner (threads s t) = Some j" "joiner (threads s t') = Some j"
    "\<not> exited (threads s t)" "\<not> exited (threads s t')"
    by (simp_all add: jn ex)
  then show "t = t'" by (rule joiners_okD(3) [OF j0])
qed

lemma base_upd_prims [simp]:
  "base (upd_mutex m f s) = base s"
  "base (upd_cond c g s) = base s"
  "base (upd_sem x h s) = base s"
  "cur_ok (upd_mutex m f s) = cur_ok s"
  "cur_ok (upd_cond c g s) = cur_ok s"
  "cur_ok (upd_sem x h s) = cur_ok s"
  by (simp_all add: base_def wq_ok_def rq_ok_def joiners_ok_def cur_ok_def
      upd_mutex_def upd_cond_def upd_sem_def)

lemma base_upd_thread:
  assumes "blocked_queue (f (threads s t)) = blocked_queue (threads s t)"
    and "joiner (f (threads s t)) = joiner (threads s t)"
    and "exited (f (threads s t)) = exited (threads s t)"
  shows "base (upd_thread t f s) = base s" "cur_ok (upd_thread t f s) = cur_ok s"
proof -
  have 1: "blocked_queue (threads (upd_thread t f s) u) = blocked_queue (threads s u)" for u
    using assms(1) by simp
  have 2: "joiner (threads (upd_thread t f s) u) = joiner (threads s u)" for u
    using assms(2) by simp
  have 3: "exited (threads (upd_thread t f s) u) = exited (threads s u)" for u
    using assms(3) by simp
  show "base (upd_thread t f s) = base s"
    unfolding base_def using base_cong [of "upd_thread t f s" s, OF _ _ 1 2 3] by simp
  show "cur_ok (upd_thread t f s) = cur_ok s"
    unfolding cur_ok_def 2 3 by simp
qed

lemma base_wait_queue_init:
  assumes b: "base s"
  shows "base (wait_queue_init q s)"
proof (cases q)
  case None
  then show ?thesis using b by (simp add: wait_queue_init_def)
next
  case (Some q')
  let ?s = "wait_queue_init q s"
  have f: "wqs ?s = (wqs s)(q' := [])" "runq ?s = runq s" "threads ?s = threads s"
    by (simp_all add: Some wait_queue_init_def)
  from b have w0: "wq_ok s" and r0: "rq_ok s" and j0: "joiners_ok s" by (simp_all add: base_def)
  have "wq_ok ?s"
  proof (rule wq_okI)
    fix q t assume "t \<in> set (wqs ?s q)"
    then have "t \<in> set (wqs s q)" by (simp add: f split: if_splits)
    then show "blocked_queue (threads ?s t) = Some q \<and> \<not> exited (threads ?s t)"
      using wq_okD(1,3) [OF w0] by (simp add: f)
  next
    fix q show "distinct (wqs ?s q)" using wq_okD(2) [OF w0, of q] by (simp add: f)
  qed
  moreover have "rq_ok ?s" using r0 unfolding rq_ok_def f .
  moreover have "joiners_ok ?s" using j0 unfolding joiners_ok_def f .
  ultimately show ?thesis by (simp add: base_def)
qed

lemma cur_wait_queue_init [simp]: "cur_ok (wait_queue_init q s) = cur_ok s"
  by (cases q; simp add: wait_queue_init_def cur_ok_def)

lemma base_add:
  assumes b: "base s" and ub: "blocked_queue (threads s c) = None" and nr: "c \<notin> set (runq s)"
    and ne: "\<not> exited (threads s c)"
    and nj: "\<And>t. joiner (threads s t) = Some c \<Longrightarrow> exited (threads s t)"
  shows "base (wait_queue_add q (Some c) s)"
proof (cases q)
  case None
  then show ?thesis using b by (simp add: wait_queue_add_def)
next
  case (Some q')
  let ?s = "wait_queue_add q (Some c) s"
  have f: "wqs ?s = (wqs s)(q' := wqs s q' @ [c])" "runq ?s = runq s"
    "threads ?s = (threads s)(c := (threads s c)\<lparr>blocked_queue := Some q'\<rparr>)"
    by (simp_all add: Some wait_queue_add_def)
  from b have w0: "wq_ok s" and r0: "rq_ok s" and j0: "joiners_ok s" by (simp_all add: base_def)
  have cn: "c \<notin> set (wqs s q'')" for q'' using wq_okD(1) [OF w0, of c q''] ub by auto
  have "wq_ok ?s"
  proof (rule wq_okI)
    fix q t assume "t \<in> set (wqs ?s q)"
    then show "blocked_queue (threads ?s t) = Some q \<and> \<not> exited (threads ?s t)"
      using wq_okD(1,3) [OF w0, of t q] cn ne by (auto simp: f split: if_splits)
  next
    fix q show "distinct (wqs ?s q)" using wq_okD(2) [OF w0, of q] cn by (auto simp: f)
  qed
  moreover have "rq_ok ?s"
  proof (rule rq_okI)
    fix t assume "t \<in> set (runq ?s)"
    then show "blocked_queue (threads ?s t) = None \<and> \<not> exited (threads ?s t)"
      using rq_okD(1,3) [OF r0, of t] nr by (auto simp: f)
  next
    show "distinct (runq ?s)" using rq_okD(2) [OF r0] by (simp add: f)
  qed
  moreover have "joiners_ok ?s"
  proof (rule joiners_ok_frame [OF j0])
    fix t j assume a: "joiner (threads s t) = Some j" "\<not> exited (threads s t)"
    then have "j \<noteq> c" using nj by auto
    then show "j \<notin> set (runq ?s) \<and> blocked_queue (threads ?s j) = None"
      using joiners_okD(1,2) [OF j0 a] by (simp add: f)
  qed (simp_all add: f)
  ultimately show ?thesis by (simp add: base_def)
qed

lemma base_wake_one:
  assumes b: "base s"
  shows "base (wait_queue_wake_one q s)"
proof (cases q)
  case None
  then show ?thesis using b by (simp add: wait_queue_wake_one_def)
next
  case (Some q')
  show ?thesis
  proof (cases "wqs s q'")
    case Nil
    then show ?thesis using b Some by (simp add: wait_queue_wake_one_def wait_queue_remove_def)
  next
    case (Cons t rest)
    let ?s = "wait_queue_wake_one q s"
    have f: "wqs ?s = (wqs s)(q' := rest)" "runq ?s = runq s @ [t]"
      "threads ?s = (threads s)(t := (threads s t)\<lparr>blocked_queue := None, state := UTHREAD_STATE_READY\<rparr>)"
      by (simp_all add: Some Cons wait_queue_wake_one_def wait_queue_remove_def scheduler_unblock_def
          ops_enqueue_def upd_thread_def)
    from b have w0: "wq_ok s" and r0: "rq_ok s" and j0: "joiners_ok s" by (simp_all add: base_def)
    have bt: "blocked_queue (threads s t) = Some q'" "\<not> exited (threads s t)"
      using wq_okD(1,3) [OF w0, of t q'] Cons by simp_all
    have tr: "t \<notin> set rest" using wq_okD(2) [OF w0, of q'] Cons by simp
    have tq: "t \<notin> set (wqs s q'')" if "q'' \<noteq> q'" for q''
      using wq_okD(1) [OF w0, of t q''] bt that by auto
    have trq: "t \<notin> set (runq s)" using rq_okD(1) [OF r0, of t] bt by auto
    have "wq_ok ?s"
    proof (rule wq_okI)
      fix q t' assume "t' \<in> set (wqs ?s q)"
      then show "blocked_queue (threads ?s t') = Some q \<and> \<not> exited (threads ?s t')"
        using wq_okD(1,3) [OF w0, of t' q] tr tq [of q] Cons by (auto simp: f split: if_splits)
    next
      fix q show "distinct (wqs ?s q)" using wq_okD(2) [OF w0, of q] Cons by (auto simp: f)
    qed
    moreover have "rq_ok ?s"
    proof (rule rq_okI)
      fix u assume "u \<in> set (runq ?s)"
      then show "blocked_queue (threads ?s u) = None \<and> \<not> exited (threads ?s u)"
        using rq_okD(1,3) [OF r0, of u] bt by (auto simp: f)
    next
      show "distinct (runq ?s)" using rq_okD(2) [OF r0] trq by (simp add: f)
    qed
    moreover have "joiners_ok ?s"
    proof (rule joiners_ok_frame [OF j0])
      fix u j assume a: "joiner (threads s u) = Some j" "\<not> exited (threads s u)"
      have "j \<noteq> t" using joiners_okD(2) [OF j0 a] bt by auto
      then show "j \<notin> set (runq ?s) \<and> blocked_queue (threads ?s j) = None"
        using joiners_okD(1,2) [OF j0 a] by (simp add: f)
    qed (simp_all add: f)
    ultimately show ?thesis by (simp add: base_def)
  qed
qed

lemma base_remove_specific:
  assumes b: "base s"
  shows "base (snd (wait_queue_remove_specific q (Some t) s))"
proof (cases "\<exists>q'. q = Some q' \<and> blocked_queue (threads s t) = Some q'")
  case False
  then show ?thesis using b by (cases q) (auto simp: wait_queue_remove_specific_def)
next
  case True
  then obtain q' where q: "q = Some q'" and bt: "blocked_queue (threads s t) = Some q'" by blast
  let ?s = "snd (wait_queue_remove_specific q (Some t) s)"
  have f: "wqs ?s = (wqs s)(q' := remove1 t (wqs s q'))" "runq ?s = runq s"
    "threads ?s = (threads s)(t := (threads s t)\<lparr>blocked_queue := None\<rparr>)"
    by (simp_all add: q bt wait_queue_remove_specific_def)
  from b have w0: "wq_ok s" and r0: "rq_ok s" and j0: "joiners_ok s" by (simp_all add: base_def)
  have tq: "t \<notin> set (wqs s q'')" if "q'' \<noteq> q'" for q''
    using wq_okD(1) [OF w0, of t q''] bt that by auto
  have "wq_ok ?s"
  proof (rule wq_okI)
    fix q t' assume "t' \<in> set (wqs ?s q)"
    then show "blocked_queue (threads ?s t') = Some q \<and> \<not> exited (threads ?s t')"
      using wq_okD(1,3) [OF w0, of t' q] wq_okD(2) [OF w0, of q'] tq [of q]
      by (auto simp: f split: if_splits)
  next
    fix q show "distinct (wqs ?s q)" using wq_okD(2) [OF w0, of q] by (auto simp: f)
  qed
  moreover have "rq_ok ?s"
  proof (rule rq_okI)
    fix u assume "u \<in> set (runq ?s)"
    then show "blocked_queue (threads ?s u) = None \<and> \<not> exited (threads ?s u)"
      using rq_okD(1,3) [OF r0, of u] by (auto simp: f)
  next
    show "distinct (runq ?s)" using rq_okD(2) [OF r0] by (simp add: f)
  qed
  moreover have "joiners_ok ?s"
  proof (rule joiners_ok_frame [OF j0])
    fix u j assume a: "joiner (threads s u) = Some j" "\<not> exited (threads s u)"
    show "j \<notin> set (runq ?s) \<and> blocked_queue (threads ?s j) = None"
      using joiners_okD(1,2) [OF j0 a] by (simp add: f)
  qed (simp_all add: f)
  ultimately show ?thesis by (simp add: base_def)
qed

lemma base_enqueue:
  assumes b: "base s" and ub: "blocked_queue (threads s c) = None" and nr: "c \<notin> set (runq s)"
    and ne: "\<not> exited (threads s c)"
    and nj: "\<And>t. joiner (threads s t) = Some c \<Longrightarrow> exited (threads s t)"
  shows "base (ops_enqueue c s)"
proof -
  let ?s = "ops_enqueue c s"
  have f: "wqs ?s = wqs s" "runq ?s = runq s @ [c]" "threads ?s = threads s"
    by (simp_all add: ops_enqueue_def)
  from b have w0: "wq_ok s" and r0: "rq_ok s" and j0: "joiners_ok s" by (simp_all add: base_def)
  have "wq_ok ?s" using w0 unfolding wq_ok_def f .
  moreover have "rq_ok ?s"
  proof (rule rq_okI)
    fix u assume "u \<in> set (runq ?s)"
    then show "blocked_queue (threads ?s u) = None \<and> \<not> exited (threads ?s u)"
      using rq_okD(1,3) [OF r0, of u] ub ne by (auto simp: f)
  next
    show "distinct (runq ?s)" using rq_okD(2) [OF r0] nr by (simp add: f)
  qed
  moreover have "joiners_ok ?s"
  proof (rule joiners_ok_frame [OF j0])
    fix u j assume a: "joiner (threads s u) = Some j" "\<not> exited (threads s u)"
    have "j \<noteq> c" using nj a by auto
    then show "j \<notin> set (runq ?s) \<and> blocked_queue (threads ?s j) = None"
      using joiners_okD(1,2) [OF j0 a] by (simp add: f)
  qed (simp_all add: f)
  ultimately show ?thesis by (simp add: base_def)
qed

lemma schedule_inv:
  assumes b: "base s" and sc: "scheduler_schedule nxt s = Some s'"
  shows "sched_inv s'"
proof -
  from sc obtain n where n: "nxt = Some n" "n \<in> set (runq s)"
    by (auto simp: scheduler_schedule_def split: option.splits if_splits)
  from b have w0: "wq_ok s" and r0: "rq_ok s" and j0: "joiners_ok s" by (simp_all add: base_def)
  have f: "wqs s' = wqs s" "runq s' = remove1 n (runq s)" "current s' = Some n"
    "\<And>u. blocked_queue (threads s' u) = blocked_queue (threads s u)"
    "\<And>u. joiner (threads s' u) = joiner (threads s u)"
    "\<And>u. exited (threads s' u) = exited (threads s u)"
    using sc n by (auto simp: scheduler_schedule_def Let_def split: option.splits if_splits)
  have "wq_ok s'" using w0 unfolding wq_ok_def f .
  moreover have "rq_ok s'"
  proof (rule rq_okI)
    fix u assume "u \<in> set (runq s')"
    then show "blocked_queue (threads s' u) = None \<and> \<not> exited (threads s' u)"
      using rq_okD(1,3) [OF r0, of u] rq_okD(2) [OF r0] by (auto simp: f)
  next
    show "distinct (runq s')" using rq_okD(2) [OF r0] by (simp add: f)
  qed
  moreover have "joiners_ok s'"
  proof (rule joiners_ok_frame [OF j0])
    fix u j assume a: "joiner (threads s u) = Some j" "\<not> exited (threads s u)"
    show "j \<notin> set (runq s') \<and> blocked_queue (threads s' j) = None"
      using joiners_okD(1,2) [OF j0 a] rq_okD(2) [OF r0] by (auto simp: f)
  qed (simp_all add: f)
  moreover have "cur_ok s'"
  proof (rule cur_okI)
    fix c assume "current s' = Some c"
    then show "c \<notin> set (runq s') \<and> \<not> exited (threads s' c)"
      using rq_okD(2) [OF r0] rq_okD(3) [OF r0 n(2)] by (simp add: f)
  next
    fix c t assume c: "current s' = Some c" and j: "joiner (threads s' t) = Some c"
    show "exited (threads s' t)"
    proof (rule ccontr)
      assume "\<not> exited (threads s' t)"
      then have "c \<notin> set (runq s)" using joiners_okD(1) [OF j0, of t c] j by (simp add: f)
      then show False using c n by (simp add: f)
    qed
  qed
  moreover have "cur_unblocked s'"
    unfolding cur_unblocked_def using rq_okD(1) [OF r0 n(2)] by (simp add: f)
  ultimately show ?thesis by (simp add: sched_inv_def mid_def base_def)
qed

lemma stops_at_inv:
  assumes b: "base s" and st: "stops_at k nxt s = Some (r, s')"
  shows "sched_inv s'"
proof -
  from st obtain t where t: "current s = Some t"
    and sc: "scheduler_schedule nxt (upd_thread t (\<lambda>x. x\<lparr>t_context := k\<rparr>) s) = Some s'"
    by (auto simp: stops_at_def split: option.splits)
  have "base (upd_thread t (\<lambda>x. x\<lparr>t_context := k\<rparr>) s)"
    using b by (simp add: base_upd_thread)
  then show ?thesis using sc by (rule schedule_inv)
qed

definition owns :: "sys \<Rightarrow> qid option \<Rightarrow> bool" where
  "owns s b \<longleftrightarrow> base s \<and> cur_ok s \<and> (\<forall>c. current s = Some c \<longrightarrow> blocked_queue (threads s c) = b)"

lemma owns_allocated [simp]: "owns (s\<lparr>allocated := X\<rparr>) b = owns s b"
  by (simp add: owns_def base_def wq_ok_def rq_ok_def joiners_ok_def cur_ok_def)

lemma sched_inv_owns: "sched_inv s = owns s None"
  by (simp add: sched_inv_def mid_def owns_def cur_unblocked_def)

lemma owns_prims [simp]:
  "owns (upd_mutex m f s) b = owns s b"
  "owns (upd_cond c g s) b = owns s b"
  "owns (upd_sem x h s) b = owns s b"
  "owns (mutex_acquire m s) b = owns s b"
  by (simp_all add: owns_def mutex_acquire_def)

lemma owns_upd_thread:
  assumes "blocked_queue (f (threads s t)) = blocked_queue (threads s t)"
    and "joiner (f (threads s t)) = joiner (threads s t)"
    and "exited (f (threads s t)) = exited (threads s t)"
  shows "owns (upd_thread t f s) b = owns s b"
proof -
  have "blocked_queue (threads (upd_thread t f s) u) = blocked_queue (threads s u)" for u
    using assms(1) by simp
  then show ?thesis unfolding owns_def base_upd_thread [of f s t, OF assms] by simp
qed

lemma owns_state [simp]:
  "owns (upd_thread t (\<lambda>x. x\<lparr>state := v\<rparr>) s) b = owns s b"
  "owns (upd_thread t (\<lambda>x. x\<lparr>t_context := k\<rparr>) s) b = owns s b"
  by (simp_all add: owns_upd_thread)

lemma owns_init: "owns s b \<Longrightarrow> owns (wait_queue_init q s) b"
  unfolding owns_def by (simp add: base_wait_queue_init)

lemma owns_add:
  assumes o: "owns s None" and c: "current s = Some c"
  shows "owns (wait_queue_add q (Some c) s) q"
proof -
  from o c have b: "base s" and co: "cur_ok s" and ub: "blocked_queue (threads s c) = None"
    by (auto simp: owns_def)
  have 1: "base (wait_queue_add q (Some c) s)"
    using b ub cur_okD [OF co c] by (intro base_add) auto
  have f: "runq (wait_queue_add q (Some c) s) = runq s"
    "current (wait_queue_add q (Some c) s) = current s"
    "\<And>u. joiner (threads (wait_queue_add q (Some c) s) u) = joiner (threads s u)"
    "\<And>u. exited (threads (wait_queue_add q (Some c) s) u) = exited (threads s u)"
    "blocked_queue (threads (wait_queue_add q (Some c) s) c) = q"
    using ub by (cases q; simp add: wait_queue_add_def)+
  have 2: "cur_ok (wait_queue_add q (Some c) s)" using co unfolding cur_ok_def f .
  show ?thesis using 1 2 c by (simp add: owns_def f)
qed

lemma owns_wake_one:
  assumes o: "owns s b" and d: "q = None \<or> q \<noteq> b \<or> current s = None"
  shows "owns (wait_queue_wake_one q s) b \<and> current (wait_queue_wake_one q s) = current s"
proof (cases q)
  case None
  then show ?thesis using o by (simp add: wait_queue_wake_one_def)
next
  case (Some q')
  show ?thesis
  proof (cases "wqs s q'")
    case Nil
    then show ?thesis using o Some by (simp add: wait_queue_wake_one_def wait_queue_remove_def)
  next
    case (Cons t rest)
    let ?s = "wait_queue_wake_one q s"
    have f: "runq ?s = runq s @ [t]" "current ?s = current s"
      "\<And>u. joiner (threads ?s u) = joiner (threads s u)"
      "\<And>u. exited (threads ?s u) = exited (threads s u)"
      "\<And>u. u \<noteq> t \<Longrightarrow> blocked_queue (threads ?s u) = blocked_queue (threads s u)"
      by (simp_all add: Some Cons wait_queue_wake_one_def wait_queue_remove_def scheduler_unblock_def
          ops_enqueue_def upd_thread_def)
    from o have b: "base s" and co: "cur_ok s"
      and ub: "\<And>c. current s = Some c \<Longrightarrow> blocked_queue (threads s c) = b"
      by (auto simp: owns_def)
    have bt: "blocked_queue (threads s t) = Some q'"
      using b Cons wq_okD(1) [of s t q'] by (simp add: base_def)
    have nc: "c \<noteq> t" if "current s = Some c" for c
      using ub [OF that] bt d Some that by auto
    have 1: "base ?s" using b by (rule base_wake_one)
    have 2: "cur_ok ?s"
    proof (rule cur_okI)
      fix c assume "current ?s = Some c"
      then show "c \<notin> set (runq ?s) \<and> \<not> exited (threads ?s c)"
        using cur_okD(1,3) [OF co, of c] nc [of c] by (simp add: f)
    next
      fix c u assume "current ?s = Some c" "joiner (threads ?s u) = Some c"
      then show "exited (threads ?s u)" using cur_okD(2) [OF co, of c u] by (simp add: f)
    qed
    show ?thesis using 1 2 ub nc by (simp add: owns_def f)
  qed
qed

lemma owns_wake_all:
  assumes o: "owns s b" and d: "q = None \<or> q \<noteq> b \<or> current s = None"
  shows "owns (wait_queue_wake_all q s) b \<and> current (wait_queue_wake_all q s) = current s"
  by (rule wake_all_pres [where P = "\<lambda>s'. owns s' b \<and> current s' = current s"])
     (use o d owns_wake_one in auto)

lemma owns_remove_specific:
  assumes o: "owns s b" and c: "current s = Some c"
  shows "owns (snd (wait_queue_remove_specific q (Some c) s)) (if q \<noteq> None \<and> q = b then None else b)"
proof -
  let ?s = "snd (wait_queue_remove_specific q (Some c) s)"
  from o c have b0: "base s" and co: "cur_ok s" and ub: "blocked_queue (threads s c) = b"
    by (auto simp: owns_def)
  have f: "runq ?s = runq s" "current ?s = current s"
    "\<And>u. joiner (threads ?s u) = joiner (threads s u)"
    "\<And>u. exited (threads ?s u) = exited (threads s u)"
    "blocked_queue (threads ?s c) = (if q \<noteq> None \<and> q = b then None else b)"
    using ub by (cases q; simp add: wait_queue_remove_specific_def; fail)+
  have 1: "base ?s" using b0 by (rule base_remove_specific)
  have 2: "cur_ok ?s" using co unfolding cur_ok_def f .
  show ?thesis using 1 2 c f(5) by (simp only: owns_def f(2)) simp
qed

lemma owns_stops: "owns s b \<Longrightarrow> stops_at k nxt s = Some (r, s') \<Longrightarrow> sched_inv s'"
  using stops_at_inv by (auto simp: owns_def)

lemma owns_returns:
  "owns s None \<Longrightarrow> returns e s = Some (r, s') \<Longrightarrow> sched_inv s'"
  "owns s None \<Longrightarrow> returns_out e out s = Some (r, s') \<Longrightarrow> sched_inv s'"
  "owns s None \<Longrightarrow> returns_void s = Some (r, s') \<Longrightarrow> sched_inv s'"
  by (auto simp: returns_def returns_out_def returns_void_def sched_inv_owns split: option.splits)


lemma stopsI: "stops_at k nxt s = Some (r, s') \<Longrightarrow> owns s b \<Longrightarrow> sched_inv s'"
  using owns_stops by blast

lemma returnsI:
  "returns e s = Some (r, s') \<Longrightarrow> owns s None \<Longrightarrow> sched_inv s'"
  "returns_out e out s = Some (r, s') \<Longrightarrow> owns s None \<Longrightarrow> sched_inv s'"
  "returns_void s = Some (r, s') \<Longrightarrow> owns s None \<Longrightarrow> sched_inv s'"
  using owns_returns by blast+

lemma owns_add':
  "owns s None \<Longrightarrow> current s = Some c \<Longrightarrow> q' = q \<Longrightarrow> owns (wait_queue_add q (Some c) s) q'"
  using owns_add by blast

lemma mutex_lock_loop_inv:
  "sched_inv s \<Longrightarrow> mutex_lock_loop nxt m s = Some (r, s') \<Longrightarrow> sched_inv s'"
  unfolding sched_inv_owns mutex_lock_loop_def
  by (auto split: if_splits option.splits
      elim!: stopsI [unfolded sched_inv_owns] returnsI [unfolded sched_inv_owns]
      intro!: owns_add')

lemma conds_frames [simp]:
  "conds (wait_queue_add q t s) = conds s"
  "conds (snd (wait_queue_remove q s)) = conds s"
  "conds (snd (wait_queue_remove_specific q t s)) = conds s"
  "conds (scheduler_unblock t s) = conds s"
  "conds (wait_queue_wake_one q s) = conds s"
  "conds (ops_enqueue u s) = conds s"
  "conds (ops_remove u s) = conds s"
  "conds (mutex_acquire m s) = conds s"
  "conds (mutex_release m s) = conds s"
  "conds (cond_release_mutex m s) = conds s"
  by (auto simp: wait_queue_add_def wait_queue_remove_def wait_queue_remove_specific_def
      scheduler_unblock_def wait_queue_wake_one_def ops_enqueue_def ops_remove_def
      mutex_acquire_def mutex_release_def cond_release_mutex_def Let_def
      split: option.splits list.splits)

lemma ptr_ok_cong:
  "mutexes s' = mutexes s \<Longrightarrow> conds s' = conds s \<Longrightarrow> sems s' = sems s \<Longrightarrow> ptr_ok s' = ptr_ok s"
  by (simp add: ptr_ok_def)

lemma ptr_ok_frames [simp]:
  "ptr_ok (wait_queue_add q t s) = ptr_ok s"
  "ptr_ok (wait_queue_init q s) = ptr_ok s"
  "ptr_ok (snd (wait_queue_remove_specific q t s)) = ptr_ok s"
  "ptr_ok (wait_queue_wake_one q s) = ptr_ok s"
  "ptr_ok (ops_enqueue u s) = ptr_ok s"
  "ptr_ok (ops_remove u s) = ptr_ok s"
  "ptr_ok (upd_thread u f s) = ptr_ok s"
  by (rule ptr_ok_cong; simp)+

lemma ptr_ok_wake_all [simp]: "ptr_ok (wait_queue_wake_all q s) = ptr_ok s"
  by (rule wake_all_pres [where P = "\<lambda>s'. ptr_ok s' = ptr_ok s"]) simp_all

lemma ptr_ok_upd_same [simp]:
  "m_waiters (f (mutexes s m)) = m_waiters (mutexes s m) \<Longrightarrow> ptr_ok (upd_mutex m f s) = ptr_ok s"
  "c_waiters (g (conds s c)) = c_waiters (conds s c) \<Longrightarrow> ptr_ok (upd_cond c g s) = ptr_ok s"
  "s_waiters (h (sems s x)) = s_waiters (sems s x) \<Longrightarrow> ptr_ok (upd_sem x h s) = ptr_ok s"
  by (auto simp: ptr_ok_def)

lemma ptr_ok_upd_set:
  "ptr_ok s \<Longrightarrow> m_waiters (f (mutexes s m)) = None \<or> m_waiters (f (mutexes s m)) = Some (MutexQ m)
     \<Longrightarrow> ptr_ok (upd_mutex m f s)"
  "ptr_ok s \<Longrightarrow> c_waiters (g (conds s c)) = None \<or> c_waiters (g (conds s c)) = Some (CondQ c)
     \<Longrightarrow> ptr_ok (upd_cond c g s)"
  "ptr_ok s \<Longrightarrow> s_waiters (h (sems s x)) = None \<or> s_waiters (h (sems s x)) = Some (SemQ x)
     \<Longrightarrow> ptr_ok (upd_sem x h s)"
  by (auto simp: ptr_ok_def)

lemma ptr_okD:
  "ptr_ok s \<Longrightarrow> m_waiters (mutexes s m) = Some q \<Longrightarrow> q = MutexQ m"
  "ptr_ok s \<Longrightarrow> c_waiters (conds s c) = Some q \<Longrightarrow> q = CondQ c"
  "ptr_ok s \<Longrightarrow> s_waiters (sems s x) = Some q \<Longrightarrow> q = SemQ x"
  by (simp_all add: ptr_ok_def)

lemma ptr_ok_schedule: "scheduler_schedule nxt s = Some s' \<Longrightarrow> ptr_ok s' = ptr_ok s"
  by (rule ptr_ok_cong)
     (auto simp: scheduler_schedule_def Let_def split: option.splits if_splits)

lemma ptr_ok_seg:
  "stops_at k nxt s = Some (r, s') \<Longrightarrow> ptr_ok s' = ptr_ok s"
  "returns e s = Some (r, s') \<Longrightarrow> ptr_ok s' = ptr_ok s"
  "returns_out e out s = Some (r, s') \<Longrightarrow> ptr_ok s' = ptr_ok s"
  "returns_void s = Some (r, s') \<Longrightarrow> ptr_ok s' = ptr_ok s"
  by (auto simp: stops_at_def returns_def returns_out_def returns_void_def
      dest: ptr_ok_schedule split: option.splits)

lemma ptr_ok_mutex_prims [simp]:
  "ptr_ok (mutex_acquire m s) = ptr_ok s"
  "ptr_ok (mutex_release m s) = ptr_ok s"
  "ptr_ok (cond_release_mutex m s) = ptr_ok s"
  by (simp_all add: mutex_acquire_def mutex_release_def cond_release_mutex_def Let_def)


lemma lazy_init_ptr_ok:
  "ptr_ok s \<Longrightarrow> mutex_lazy_init mem m s = Inr s' \<Longrightarrow> ptr_ok s'"
  "ptr_ok s \<Longrightarrow> mutex_lazy_init mem m s = Inl s' \<Longrightarrow> ptr_ok s'"
  "ptr_ok s \<Longrightarrow> cond_lazy_init mem c s = Inr s' \<Longrightarrow> ptr_ok s'"
  "ptr_ok s \<Longrightarrow> cond_lazy_init mem c s = Inl s' \<Longrightarrow> ptr_ok s'"
  by (auto simp: mutex_lazy_init_def cond_lazy_init_def intro!: ptr_ok_upd_set split: if_splits)

lemma ptr_ok_segE:
  "stops_at k nxt s = Some (r, s') \<Longrightarrow> ptr_ok s \<Longrightarrow> ptr_ok s'"
  "returns e s = Some (r, s') \<Longrightarrow> ptr_ok s \<Longrightarrow> ptr_ok s'"
  "returns_out e out s = Some (r, s') \<Longrightarrow> ptr_ok s \<Longrightarrow> ptr_ok s'"
  "returns_void s = Some (r, s') \<Longrightarrow> ptr_ok s \<Longrightarrow> ptr_ok s'"
  using ptr_ok_seg by blast+

lemma mutex_fns_ptr_ok:
  "ptr_ok s \<Longrightarrow> mutex_lock_loop nxt m s = Some (r, s') \<Longrightarrow> ptr_ok s'"
  "ptr_ok s \<Longrightarrow> uthread_mutex_lock mem nxt mu s = Some (r, s') \<Longrightarrow> ptr_ok s'"
  "ptr_ok s \<Longrightarrow> uthread_mutex_trylock mem mu s = Some (r, s') \<Longrightarrow> ptr_ok s'"
  "ptr_ok s \<Longrightarrow> uthread_mutex_unlock mu s = Some (r, s') \<Longrightarrow> ptr_ok s'"
  by (auto simp: uthread_mutex_lock_def uthread_mutex_trylock_def uthread_mutex_unlock_def
      mutex_lock_loop_def Let_def
      elim!: ptr_ok_segE dest: lazy_init_ptr_ok split: option.splits sum.splits if_splits)

lemma cond_relock_ptr_ok:
  "ptr_ok s \<Longrightarrow> cond_relock k rc nxt m s = Some (r, s') \<Longrightarrow> ptr_ok s'"
  by (auto simp: cond_relock_def elim!: ptr_ok_segE split: option.splits if_splits)

lemma cond_timedwait_loop_ptr_ok:
  "ptr_ok s \<Longrightarrow> cond_timedwait_loop now nxt c m d s = Some (r, s') \<Longrightarrow> ptr_ok s'"
  by (auto simp: cond_timedwait_loop_def elim!: ptr_ok_segE dest: cond_relock_ptr_ok [rotated]
      split: option.splits if_splits)

lemma cond_fns_ptr_ok:
  "ptr_ok s \<Longrightarrow> uthread_cond_wait mem nxt cv mu s = Some (r, s') \<Longrightarrow> ptr_ok s'"
  "ptr_ok s \<Longrightarrow> uthread_cond_signal mem cv s = Some (r, s') \<Longrightarrow> ptr_ok s'"
  "ptr_ok s \<Longrightarrow> uthread_cond_broadcast mem cv s = Some (r, s') \<Longrightarrow> ptr_ok s'"
  by (auto simp: uthread_cond_wait_def uthread_cond_signal_def
      uthread_cond_broadcast_def Let_def
      elim!: ptr_ok_segE dest: lazy_init_ptr_ok [rotated]
      split: option.splits sum.splits if_splits)

lemma cond_timedwait_ptr_ok:
  assumes p: "ptr_ok s" and f: "uthread_cond_timedwait mem now nxt cv mu d s = Some (r, s')"
  shows "ptr_ok s'"
proof -
  have l: "\<And>c s1. cond_lazy_init mem c s = Inr s1 \<Longrightarrow> ptr_ok s1"
    "\<And>c s1. cond_lazy_init mem c s = Inl s1 \<Longrightarrow> ptr_ok s1"
    using p lazy_init_ptr_ok(3,4) by blast+
  show ?thesis using f p
    by (auto simp: uthread_cond_timedwait_def Let_def
        elim!: ptr_ok_segE cond_timedwait_loop_ptr_ok [rotated] intro: l
        split: option.splits sum.splits)
qed

lemma sem_init_ptr_ok:
  "ptr_ok s \<Longrightarrow> uthread_sem_init mem x p v s = Some (r, s') \<Longrightarrow> ptr_ok s'"
  "ptr_ok s \<Longrightarrow> uthread_sem_destroy x s = Some (r, s') \<Longrightarrow> ptr_ok s'"
  by (auto simp: uthread_sem_init_def uthread_sem_destroy_def Let_def sem0_def
      elim!: ptr_ok_segE intro!: ptr_ok_upd_set
      split: option.splits if_splits)

lemma sem_fns_ptr_ok:
  "ptr_ok s \<Longrightarrow> sem_wait_loop nxt y s = Some (r, s') \<Longrightarrow> ptr_ok s'"
  "ptr_ok s \<Longrightarrow> uthread_sem_wait nxt x s = Some (r, s') \<Longrightarrow> ptr_ok s'"
  "ptr_ok s \<Longrightarrow> uthread_sem_trywait x s = Some (r, s') \<Longrightarrow> ptr_ok s'"
  "ptr_ok s \<Longrightarrow> sem_timedwait_loop now nxt y dl s = Some (r, s') \<Longrightarrow> ptr_ok s'"
  "ptr_ok s \<Longrightarrow> sem_timedwait_resume now now2 nxt y dl s = Some (r, s') \<Longrightarrow> ptr_ok s'"
  "ptr_ok s \<Longrightarrow> uthread_sem_timedwait now nxt x d s = Some (r, s') \<Longrightarrow> ptr_ok s'"
  "ptr_ok s \<Longrightarrow> uthread_sem_post x s = Some (r, s') \<Longrightarrow> ptr_ok s'"
  "ptr_ok s \<Longrightarrow> uthread_sem_getvalue x b s = Some (r, s') \<Longrightarrow> ptr_ok s'"
  by (auto simp: sem_wait_loop_def
      uthread_sem_wait_def uthread_sem_trywait_def sem_timedwait_loop_def
      sem_timedwait_resume_def uthread_sem_timedwait_def uthread_sem_post_def
      uthread_sem_getvalue_def Let_def
      elim!: ptr_ok_segE
      split: option.splits if_splits)

lemma ptr_ok_allocated [simp]: "ptr_ok (s\<lparr>allocated := X\<rparr>) = ptr_ok s"
  by (simp add: ptr_ok_def)

lemma create_ptr_ok:
  assumes p: "ptr_ok s"
    and f: "uthread_create new stack_ok thread attr start a s = Some (r, s')"
  shows "ptr_ok s'"
proof -
  from uthread_create_cases [OF f] show ?thesis
  proof (elim disjE exE conjE)
    fix e assume "returns e s = Some (r, s')"
    then show ?thesis using p by (rule ptr_ok_segE(2))
  next
    fix u n r0
    assume rt: "returns UTHREAD_SUCCESS
             (ops_enqueue u (s\<lparr>threads := (threads s)(u := n),
                               allocated := insert u (allocated s)\<rparr>)) = Some (r0, s')"
    have "ptr_ok (ops_enqueue u (s\<lparr>threads := (threads s)(u := n),
                                 allocated := insert u (allocated s)\<rparr>)) = ptr_ok s"
      by (rule ptr_ok_cong) (simp_all add: ops_enqueue_def)
    then show ?thesis using rt p by (auto elim!: ptr_ok_segE(2))
  qed
qed

lemma api_create_ptr_ok:
  "ptr_ok s \<Longrightarrow> api i (Create new stack_ok thread attr start a) s = Some (r, s') \<Longrightarrow> ptr_ok s'"
  by (auto simp: api_def dest: create_ptr_ok split: option.splits if_splits)

lemma life_fns_ptr_ok:
  "ptr_ok s \<Longrightarrow> join_loop nxt u p s = Some (r, s') \<Longrightarrow> ptr_ok s'"
  "ptr_ok s \<Longrightarrow> uthread_join nxt t p s = Some (r, s') \<Longrightarrow> ptr_ok s'"
  "ptr_ok s \<Longrightarrow> uthread_exit nxt v s = Some (r, s') \<Longrightarrow> ptr_ok s'"
  "ptr_ok s \<Longrightarrow> uthread_yield nxt s = Some (r, s') \<Longrightarrow> ptr_ok s'"
  by (auto simp: uthread_join_def join_loop_def uthread_exit_def uthread_yield_def Let_def
      elim!: ptr_ok_segE split: option.splits if_splits)

lemma step_ptr_ok:
  assumes "ptr_ok s" and "step i l s = Some (r, s')"
  shows "ptr_ok s'"
proof (cases l)
  case (Call c)
  with assms(2) have a: "api i c s = Some (r, s')" by (auto simp: step_def split: if_splits)
  show ?thesis
  proof (cases c)
    case (Create new stack_ok thread attr start ar)
    then show ?thesis using a assms(1) api_create_ptr_ok by blast
  qed (use a assms(1) in \<open>auto simp: api_def context_entry_wrapper_return_def
         dest: mutex_fns_ptr_ok [rotated] cond_fns_ptr_ok [rotated] sem_fns_ptr_ok [rotated]
           cond_timedwait_ptr_ok [rotated]
           sem_init_ptr_ok [rotated] life_fns_ptr_ok [rotated]\<close>)
next
  case Resume
  with assms(2) have "resume i (pc s) s = Some (r, s')" by (auto simp: step_def split: if_splits)
  then show ?thesis using assms(1)
    by (cases "pc s")
       (auto simp: resume_def elim!: ptr_ok_segE
         dest: mutex_fns_ptr_ok [rotated] cond_relock_ptr_ok [rotated]
           cond_timedwait_loop_ptr_ok [rotated] sem_fns_ptr_ok [rotated]
           life_fns_ptr_ok [rotated])
qed

lemmas segI = stopsI [unfolded sched_inv_owns] returnsI [unfolded sched_inv_owns]

lemma owns_wake_None [simp]:
  "owns s None \<Longrightarrow> owns (wait_queue_wake_one q s) None"
  "owns s None \<Longrightarrow> owns (wait_queue_wake_all q s) None"
  using owns_wake_one [of s None q] owns_wake_all [of s None q] by (cases q; simp)+

lemma owns_mutex_release [simp]: "owns s None \<Longrightarrow> owns (mutex_release m s) None"
  by (simp add: mutex_release_def Let_def)

lemma owns_cond_release_mutex:
  assumes "owns s b" and "m_waiters (mutexes s m) = None \<or> m_waiters (mutexes s m) \<noteq> b"
  shows "owns (cond_release_mutex m s) b"
  using assms owns_wake_one [of "upd_mutex m (\<lambda>x. x\<lparr>m_lock := 0, m_owner := None\<rparr>) s" b
      "m_waiters (mutexes s m)"]
  by (auto simp: cond_release_mutex_def Let_def)

lemma owns_lazy_init:
  "owns s b \<Longrightarrow> mutex_lazy_init mem m s = Inr s' \<Longrightarrow> owns s' b"
  "owns s b \<Longrightarrow> mutex_lazy_init mem m s = Inl s' \<Longrightarrow> owns s' b"
  "owns s b \<Longrightarrow> cond_lazy_init mem c s = Inr s' \<Longrightarrow> owns s' b"
  "owns s b \<Longrightarrow> cond_lazy_init mem c s = Inl s' \<Longrightarrow> owns s' b"
  by (auto simp: mutex_lazy_init_def cond_lazy_init_def owns_init split: if_splits)

lemma mutex_fns_inv:
  "owns s None \<Longrightarrow> uthread_mutex_lock mem nxt mu s = Some (r, s') \<Longrightarrow> owns s' None"
  "owns s None \<Longrightarrow> uthread_mutex_trylock mem mu s = Some (r, s') \<Longrightarrow> owns s' None"
  "owns s None \<Longrightarrow> uthread_mutex_unlock mu s = Some (r, s') \<Longrightarrow> owns s' None"
  by (auto simp: uthread_mutex_lock_def uthread_mutex_trylock_def uthread_mutex_unlock_def Let_def
      elim!: segI dest: owns_lazy_init [rotated] mutex_lock_loop_inv [unfolded sched_inv_owns, rotated]
      split: option.splits sum.splits if_splits)

lemma cond_relock_inv:
  "owns s None \<Longrightarrow> cond_relock k rc nxt m s = Some (r, s') \<Longrightarrow> owns s' None"
  by (auto simp: cond_relock_def elim!: segI intro!: owns_add' split: option.splits if_splits)

lemma sem_fns_inv:
  "owns s None \<Longrightarrow> uthread_sem_init mem x p v s = Some (r, s') \<Longrightarrow> owns s' None"
  "owns s None \<Longrightarrow> uthread_sem_destroy x s = Some (r, s') \<Longrightarrow> owns s' None"
  "owns s None \<Longrightarrow> sem_wait_loop nxt y s = Some (r, s') \<Longrightarrow> owns s' None"
  "owns s None \<Longrightarrow> uthread_sem_wait nxt x s = Some (r, s') \<Longrightarrow> owns s' None"
  "owns s None \<Longrightarrow> uthread_sem_trywait x s = Some (r, s') \<Longrightarrow> owns s' None"
  "owns s None \<Longrightarrow> sem_timedwait_loop now nxt y dl s = Some (r, s') \<Longrightarrow> owns s' None"
  "owns s None \<Longrightarrow> uthread_sem_timedwait now nxt x d s = Some (r, s') \<Longrightarrow> owns s' None"
  "owns s None \<Longrightarrow> uthread_sem_post x s = Some (r, s') \<Longrightarrow> owns s' None"
  "owns s None \<Longrightarrow> uthread_sem_getvalue x b s = Some (r, s') \<Longrightarrow> owns s' None"
  by (auto simp: uthread_sem_init_def uthread_sem_destroy_def sem_wait_loop_def
      uthread_sem_wait_def uthread_sem_trywait_def sem_timedwait_loop_def
      uthread_sem_timedwait_def uthread_sem_post_def
      uthread_sem_getvalue_def Let_def owns_init
      elim!: segI intro!: owns_add'
      split: option.splits if_splits)

lemma sem_timedwait_resume_inv:
  assumes o: "owns s None" and f: "sem_timedwait_resume now now2 nxt y dl s = Some (r, s')"
  shows "owns s' None"
proof -
  have "blocked_queue (threads s t) = None" if "current s = Some t" for t
    using o that by (simp add: owns_def)
  then show ?thesis using f o
    by (auto simp: sem_timedwait_resume_def
        elim!: segI dest: sem_fns_inv(6) [rotated]
        split: option.splits if_splits)
qed

lemma cond_timedwait_loop_inv:
  assumes o: "owns s b" and b: "b = None \<or> b = c_waiters (conds s c)"
    and f: "cond_timedwait_loop now nxt c m d s = Some (r, s')"
  shows "owns s' None"
proof -
  from f obtain t where t: "current s = Some t" by (auto simp: cond_timedwait_loop_def split: option.splits)
  have bq: "blocked_queue (threads s t) = b" using o t by (simp add: owns_def)
  have rm: "owns (snd (wait_queue_remove_specific (c_waiters (conds s c)) (Some t) s)) None"
    using owns_remove_specific [OF o t, of "c_waiters (conds s c)"] b by (auto split: if_splits)
  show ?thesis using f t bq rm o
    by (auto simp: cond_timedwait_loop_def elim!: segI cond_relock_inv [rotated]
        split: if_splits)
qed

lemma cond_enter:
  assumes o: "owns s None" and p: "ptr_ok s" and c: "current s = Some t"
  shows "owns (cond_release_mutex m
           (wait_queue_add (c_waiters (conds s c)) (Some t)
              (upd_thread t (\<lambda>x. x\<lparr>state := UTHREAD_STATE_BLOCKED\<rparr>) s)))
         (c_waiters (conds s c))"
proof (rule owns_cond_release_mutex)
  show "owns (wait_queue_add (c_waiters (conds s c)) (Some t)
              (upd_thread t (\<lambda>x. x\<lparr>state := UTHREAD_STATE_BLOCKED\<rparr>) s)) (c_waiters (conds s c))"
    using o c by (intro owns_add') simp_all
  have "m_waiters (mutexes s m) = None \<or> m_waiters (mutexes s m) \<noteq> c_waiters (conds s c)"
    using ptr_okD(1) [OF p, of m] ptr_okD(2) [OF p, of c]
    by (metis qid.distinct(1) not_Some_eq)
  then show "m_waiters (mutexes (wait_queue_add (c_waiters (conds s c)) (Some t)
              (upd_thread t (\<lambda>x. x\<lparr>state := UTHREAD_STATE_BLOCKED\<rparr>) s)) m) = None \<or>
        m_waiters (mutexes (wait_queue_add (c_waiters (conds s c)) (Some t)
              (upd_thread t (\<lambda>x. x\<lparr>state := UTHREAD_STATE_BLOCKED\<rparr>) s)) m) \<noteq> c_waiters (conds s c)"
    by simp
qed

lemma cond_enter':
  "owns s None \<Longrightarrow> ptr_ok s \<Longrightarrow> current s = Some t \<Longrightarrow> b = c_waiters (conds s c) \<Longrightarrow>
   owns (cond_release_mutex m
           (wait_queue_add (c_waiters (conds s c)) (Some t)
              (upd_thread t (\<lambda>x. x\<lparr>state := UTHREAD_STATE_BLOCKED\<rparr>) s))) b"
  using cond_enter by blast

lemma cond_fns_inv:
  assumes o: "owns s None" and p: "ptr_ok s"
  shows "uthread_cond_wait mem nxt cv mu s = Some (r, s') \<Longrightarrow> owns s' None"
    and "uthread_cond_timedwait mem now nxt cv mu d s = Some (r, s') \<Longrightarrow> owns s' None"
    and "uthread_cond_signal mem cv s = Some (r, s') \<Longrightarrow> owns s' None"
    and "uthread_cond_broadcast mem cv s = Some (r, s') \<Longrightarrow> owns s' None"
proof -
  have l: "\<And>c s1. cond_lazy_init mem c s = Inr s1 \<Longrightarrow> owns s1 None \<and> ptr_ok s1"
    "\<And>c s1. cond_lazy_init mem c s = Inl s1 \<Longrightarrow> owns s1 None \<and> ptr_ok s1"
    using o p lazy_init_ptr_ok(3,4) owns_lazy_init(3,4) by blast+
  show "uthread_cond_signal mem cv s = Some (r, s') \<Longrightarrow> owns s' None"
    using o by (auto simp: uthread_cond_signal_def Let_def elim!: segI dest!: l
        split: option.splits sum.splits if_splits)
  show "uthread_cond_broadcast mem cv s = Some (r, s') \<Longrightarrow> owns s' None"
    using o by (auto simp: uthread_cond_broadcast_def Let_def elim!: segI dest!: l
        split: option.splits sum.splits if_splits)
  show "uthread_cond_wait mem nxt cv mu s = Some (r, s') \<Longrightarrow> owns s' None"
    using o by (auto simp: uthread_cond_wait_def Let_def elim!: segI dest!: l intro!: cond_enter'
        split: option.splits sum.splits if_splits)
  show "uthread_cond_timedwait mem now nxt cv mu d s = Some (r, s') \<Longrightarrow> owns s' None"
    using o
    by (auto simp: uthread_cond_timedwait_def Let_def elim!: segI dest!: l
        elim!: cond_timedwait_loop_inv [rotated 2] intro!: cond_enter'
        split: option.splits sum.splits if_splits)
qed

lemma base_join:
  assumes o: "owns s None" and c: "current s = Some c" and ne: "\<not> exited (threads s t)"
  shows "base (upd_thread c (\<lambda>x. x\<lparr>waiting_on := Some t, state := UTHREAD_STATE_BLOCKED\<rparr>)
                 (upd_thread t (\<lambda>x. x\<lparr>joiner := Some c\<rparr>) s))"
proof -
  let ?s1 = "upd_thread t (\<lambda>x. x\<lparr>joiner := Some c\<rparr>) s"
  from o c have b: "base s" and co: "cur_ok s" and ub: "blocked_queue (threads s c) = None"
    by (auto simp: owns_def)
  from b have w0: "wq_ok s" and r0: "rq_ok s" and j0: "joiners_ok s" by (simp_all add: base_def)
  have f: "wqs ?s1 = wqs s" "runq ?s1 = runq s"
    "\<And>u. blocked_queue (threads ?s1 u) = blocked_queue (threads s u)"
    "\<And>u. exited (threads ?s1 u) = exited (threads s u)"
    "\<And>u. joiner (threads ?s1 u) = (if u = t then Some c else joiner (threads s u))"
    by simp_all
  have "wq_ok ?s1" using w0 unfolding wq_ok_def f .
  moreover have "rq_ok ?s1" using r0 unfolding rq_ok_def f .
  moreover have "joiners_ok ?s1"
  proof (rule joiners_okI)
    fix u j assume a: "joiner (threads ?s1 u) = Some j" "\<not> exited (threads ?s1 u)"
    show "j \<notin> set (runq ?s1) \<and> blocked_queue (threads ?s1 j) = None \<and> \<not> exited (threads ?s1 j)"
    proof (cases "u = t")
      case True
      then have "j = c" using a by (simp add: f)
      then show ?thesis using cur_okD(1,3) [OF co c] ub unfolding f by simp
    next
      case False
      then have "joiner (threads s u) = Some j" "\<not> exited (threads s u)" using a by (simp_all add: f)
      then show ?thesis using joiners_okD(1,2,4) [OF j0] unfolding f by blast
    qed
  next
    fix u u' j assume a: "joiner (threads ?s1 u) = Some j" "joiner (threads ?s1 u') = Some j"
      "\<not> exited (threads ?s1 u)" "\<not> exited (threads ?s1 u')"
    have x: False if "v \<noteq> t" "joiner (threads s v) = Some c" "\<not> exited (threads s v)" for v
      using cur_okD(2) [OF co c that(2)] that(3) by simp
    show "u = u'"
    proof (cases "u = t"; cases "u' = t")
      assume "u = t" "u' = t" then show ?thesis by simp
    next
      assume h: "u = t" "u' \<noteq> t"
      then have "j = c" using a by (simp add: f)
      then show ?thesis using x [of u'] a h by (simp add: f)
    next
      assume h: "u \<noteq> t" "u' = t"
      then have "j = c" using a by (simp add: f)
      then show ?thesis using x [of u] a h by (simp add: f)
    next
      assume h: "u \<noteq> t" "u' \<noteq> t"
      then show ?thesis using joiners_okD(3) [OF j0, of u j u'] a by (simp add: f)
    qed
  qed
  ultimately have "base ?s1" by (simp add: base_def)
  then show ?thesis by (simp add: base_upd_thread)
qed

lemma join_fns_inv:
  "owns s None \<Longrightarrow> join_loop nxt t p s = Some (r, s') \<Longrightarrow> owns s' None"
  "owns s None \<Longrightarrow> uthread_join nxt th p s = Some (r, s') \<Longrightarrow> owns s' None"
  by (auto simp: join_loop_def uthread_join_def
      elim!: segI(2-) stops_at_inv [unfolded sched_inv_owns, rotated] intro!: base_join
      split: option.splits if_splits)

lemma yield_inv:
  assumes o: "owns s None" and f: "uthread_yield nxt s = Some (r, s')"
  shows "owns s' None"
proof -
  have "base (ops_enqueue c (upd_thread c (\<lambda>x. x\<lparr>state := UTHREAD_STATE_READY\<rparr>) s))"
    if c: "current s = Some c" for c
  proof (rule base_enqueue)
    from o c have b: "base s" and co: "cur_ok s" and ub: "blocked_queue (threads s c) = None"
      by (auto simp: owns_def)
    show "base (upd_thread c (\<lambda>x. x\<lparr>state := UTHREAD_STATE_READY\<rparr>) s)"
      using b by (simp add: base_upd_thread)
    show "blocked_queue (threads (upd_thread c (\<lambda>x. x\<lparr>state := UTHREAD_STATE_READY\<rparr>) s) c) = None"
      using ub by simp
    show "c \<notin> set (runq (upd_thread c (\<lambda>x. x\<lparr>state := UTHREAD_STATE_READY\<rparr>) s))"
      using cur_okD(1) [OF co c] by simp
    show "\<not> exited (threads (upd_thread c (\<lambda>x. x\<lparr>state := UTHREAD_STATE_READY\<rparr>) s) c)"
      using cur_okD(3) [OF co c] by simp
    show "exited (threads (upd_thread c (\<lambda>x. x\<lparr>state := UTHREAD_STATE_READY\<rparr>) s) t)"
      if "joiner (threads (upd_thread c (\<lambda>x. x\<lparr>state := UTHREAD_STATE_READY\<rparr>) s) t) = Some c" for t
      using cur_okD(2) [OF co c, of t] that by (auto split: if_splits)
  qed
  moreover have "base s" using o by (simp add: owns_def)
  ultimately show ?thesis using f o
    by (auto simp: uthread_yield_def
      elim!: segI(2-) stops_at_inv [unfolded sched_inv_owns, rotated]
      split: option.splits if_splits)
qed

lemma base_exit:
  assumes o: "owns s None" and c: "current s = Some c"
  shows "base (case joiner (threads (ops_remove c (upd_thread c (\<lambda>x. x\<lparr>retval := v, exited := True,
                                          state := UTHREAD_STATE_TERMINATED\<rparr>) s)) c) of
                 None \<Rightarrow> ops_remove c (upd_thread c (\<lambda>x. x\<lparr>retval := v, exited := True,
                                          state := UTHREAD_STATE_TERMINATED\<rparr>) s)
               | Some j \<Rightarrow>
                   ops_enqueue j
                     (upd_thread j (\<lambda>x. x\<lparr>waiting_on := None, state := UTHREAD_STATE_READY\<rparr>)
                        (ops_remove c (upd_thread c (\<lambda>x. x\<lparr>retval := v, exited := True,
                                          state := UTHREAD_STATE_TERMINATED\<rparr>) s))))"
proof -
  let ?s2 = "ops_remove c (upd_thread c (\<lambda>x. x\<lparr>retval := v, exited := True,
                                          state := UTHREAD_STATE_TERMINATED\<rparr>) s)"
  from o c have b: "base s" and co: "cur_ok s" and ub: "blocked_queue (threads s c) = None"
    by (auto simp: owns_def)
  from b have w0: "wq_ok s" and r0: "rq_ok s" and j0: "joiners_ok s" by (simp_all add: base_def)
  note cc = cur_okD [OF co c]
  have f: "wqs ?s2 = wqs s" "runq ?s2 = runq s"
    "\<And>u. blocked_queue (threads ?s2 u) = blocked_queue (threads s u)"
    "\<And>u. joiner (threads ?s2 u) = joiner (threads s u)"
    "\<And>u. exited (threads ?s2 u) = (u = c \<or> exited (threads s u))"
    using cc(1) by (simp_all add: ops_remove_def remove1_idem)
  have w2: "wq_ok ?s2"
  proof (rule wq_okI)
    fix q t assume "t \<in> set (wqs ?s2 q)"
    then have t: "t \<in> set (wqs s q)" by (simp add: f)
    then have "t \<noteq> c" using wq_okD(1) [OF w0 t] ub by auto
    then show "blocked_queue (threads ?s2 t) = Some q \<and> \<not> exited (threads ?s2 t)"
      using wq_okD(1,3) [OF w0 t] by (simp add: f)
  next
    fix q show "distinct (wqs ?s2 q)" using wq_okD(2) [OF w0, of q] by (simp add: f)
  qed
  have r2: "rq_ok ?s2"
  proof (rule rq_okI)
    fix t assume "t \<in> set (runq ?s2)"
    then have t: "t \<in> set (runq s)" by (simp add: f)
    then have "t \<noteq> c" using cc(1) by auto
    then show "blocked_queue (threads ?s2 t) = None \<and> \<not> exited (threads ?s2 t)"
      using rq_okD(1,3) [OF r0 t] by (simp add: f)
  next
    show "distinct (runq ?s2)" using rq_okD(2) [OF r0] by (simp add: f)
  qed
  have j2: "joiners_ok ?s2"
  proof (rule joiners_okI)
    fix u j assume "joiner (threads ?s2 u) = Some j" "\<not> exited (threads ?s2 u)"
    then have a: "joiner (threads s u) = Some j" "\<not> exited (threads s u)" by (simp_all add: f)
    have "j \<noteq> c" using cc(2) [of u] a by auto
    then show "j \<notin> set (runq ?s2) \<and> blocked_queue (threads ?s2 j) = None \<and> \<not> exited (threads ?s2 j)"
      using joiners_okD(1,2,4) [OF j0 a] by (simp add: f)
  next
    fix u u' j assume "joiner (threads ?s2 u) = Some j" "joiner (threads ?s2 u') = Some j"
      "\<not> exited (threads ?s2 u)" "\<not> exited (threads ?s2 u')"
    then have "joiner (threads s u) = Some j" "joiner (threads s u') = Some j"
      "\<not> exited (threads s u)" "\<not> exited (threads s u')" by (simp_all add: f)
    then show "u = u'" by (rule joiners_okD(3) [OF j0])
  qed
  have b2: "base ?s2" using w2 r2 j2 by (simp add: base_def)
  show ?thesis
  proof (cases "joiner (threads s c)")
    case None
    then show ?thesis using b2 by (simp add: f)
  next
    case (Some j)
    have a: "joiner (threads s c) = Some j" "\<not> exited (threads s c)" using Some cc(3) by simp_all
    have jc: "j \<noteq> c" using cc(2) [of c] a by auto
    let ?s3 = "upd_thread j (\<lambda>x. x\<lparr>waiting_on := None, state := UTHREAD_STATE_READY\<rparr>) ?s2"
    have g: "runq ?s3 = runq s"
      "\<And>u. blocked_queue (threads ?s3 u) = blocked_queue (threads s u)"
      "\<And>u. joiner (threads ?s3 u) = joiner (threads s u)"
      "\<And>u. exited (threads ?s3 u) = (u = c \<or> exited (threads s u))"
      using f by (simp_all del: upd_thread_simps(1) add: upd_thread_def)
    have "base (ops_enqueue j ?s3)"
    proof (rule base_enqueue)
      show "base ?s3" using b2 by (simp add: base_upd_thread)
      show "blocked_queue (threads ?s3 j) = None" using joiners_okD(2) [OF j0 a] unfolding g .
      show "j \<notin> set (runq ?s3)" using joiners_okD(1) [OF j0 a] unfolding g .
      show "\<not> exited (threads ?s3 j)" using joiners_okD(4) [OF j0 a] jc unfolding g by simp
      show "exited (threads ?s3 t)" if "joiner (threads ?s3 t) = Some j" for t
        using joiners_okD(3) [OF j0 a(1) _ a(2), of t] that unfolding g by auto
    qed
    then show ?thesis using Some by (simp add: f)
  qed
qed

lemma exit_inv:
  assumes o: "owns s None" and f: "uthread_exit nxt v s = Some (r, s')"
  shows "owns s' None"
proof -
  from f obtain c where c: "current s = Some c"
    by (auto simp: uthread_exit_def split: if_splits option.splits)
  from f c have "stops_at In_exit nxt
      (case joiner (threads (ops_remove c (upd_thread c (\<lambda>x. x\<lparr>retval := v, exited := True,
                                          state := UTHREAD_STATE_TERMINATED\<rparr>) s)) c) of
                 None \<Rightarrow> ops_remove c (upd_thread c (\<lambda>x. x\<lparr>retval := v, exited := True,
                                          state := UTHREAD_STATE_TERMINATED\<rparr>) s)
               | Some j \<Rightarrow>
                   ops_enqueue j
                     (upd_thread j (\<lambda>x. x\<lparr>waiting_on := None, state := UTHREAD_STATE_READY\<rparr>)
                        (ops_remove c (upd_thread c (\<lambda>x. x\<lparr>retval := v, exited := True,
                                          state := UTHREAD_STATE_TERMINATED\<rparr>) s)))) = Some (r, s')"
    by (simp add: uthread_exit_def Let_def split: if_splits)
  from stops_at_inv [OF base_exit [OF o c] this] show ?thesis by (simp add: sched_inv_owns)
qed

text \<open>
  A block that \<open>calloc\<close> hands out is not the running thread, is in no queue and is
  the joiner of no thread that has not exited.
\<close>

lemma base_create:
  assumes b: "base s" and fr: "fresh s t"
    and n: "blocked_queue n = None" "joiner n = None" "\<not> exited n"
    and f: "wqs s' = wqs s" "runq s' = runq s @ [t]" "threads s' = (threads s)(t := n)"
  shows "base s'"
proof -
  from b have w0: "wq_ok s" and r0: "rq_ok s" and j0: "joiners_ok s" by (simp_all add: base_def)
  from fr have ft: "t \<notin> set (runq s)" "\<And>q. t \<notin> set (wqs s q)"
    "\<And>u. joiner (threads s u) = Some t \<Longrightarrow> exited (threads s u)"
    by (simp_all add: fresh_def)
  have "wq_ok s'"
  proof (rule wq_okI)
    fix q u assume "u \<in> set (wqs s' q)"
    then have u: "u \<in> set (wqs s q)" by (simp add: f)
    then have "u \<noteq> t" using ft(2) by auto
    then show "blocked_queue (threads s' u) = Some q \<and> \<not> exited (threads s' u)"
      using wq_okD(1,3) [OF w0 u] by (simp add: f)
  next
    fix q show "distinct (wqs s' q)" using wq_okD(2) [OF w0, of q] by (simp add: f)
  qed
  moreover have "rq_ok s'"
  proof (rule rq_okI)
    fix u assume "u \<in> set (runq s')"
    then show "blocked_queue (threads s' u) = None \<and> \<not> exited (threads s' u)"
      using rq_okD(1,3) [OF r0, of u] n by (auto simp: f)
  next
    show "distinct (runq s')" using rq_okD(2) [OF r0] ft(1) by (simp add: f)
  qed
  moreover have "joiners_ok s'"
  proof (rule joiners_okI)
    fix u j assume "joiner (threads s' u) = Some j" "\<not> exited (threads s' u)"
    then have a: "u \<noteq> t" "joiner (threads s u) = Some j" "\<not> exited (threads s u)"
      using n by (auto simp: f split: if_splits)
    have "j \<noteq> t" using ft(3) a by auto
    then show "j \<notin> set (runq s') \<and> blocked_queue (threads s' j) = None \<and> \<not> exited (threads s' j)"
      using joiners_okD(1,2,4) [OF j0 a(2,3)] by (simp add: f)
  next
    fix u u' j assume "joiner (threads s' u) = Some j" "joiner (threads s' u') = Some j"
      "\<not> exited (threads s' u)" "\<not> exited (threads s' u')"
    then have "joiner (threads s u) = Some j" "joiner (threads s u') = Some j"
      "\<not> exited (threads s u)" "\<not> exited (threads s u')" "u \<noteq> t" "u' \<noteq> t"
      using n by (auto simp: f split: if_splits)
    then show "u = u'" using joiners_okD(3) [OF j0] by blast
  qed
  ultimately show ?thesis by (simp add: base_def)
qed

lemma owns_create:
  assumes o: "owns s None" and fr: "fresh s t"
    and n: "blocked_queue n = None" "joiner n = None" "\<not> exited n"
    and f: "current s' = current s" "wqs s' = wqs s" "runq s' = runq s @ [t]"
      "threads s' = (threads s)(t := n)"
  shows "owns s' None"
proof -
  from o have b: "base s" and co: "cur_ok s"
    and ub: "\<And>c. current s = Some c \<Longrightarrow> blocked_queue (threads s c) = None"
    by (auto simp: owns_def)
  from fr have ft: "current s \<noteq> Some t" by (simp add: fresh_def)
  have 1: "base s'" using b fr n f(2-) by (rule base_create)
  have 2: "cur_ok s'"
  proof (rule cur_okI)
    fix c assume "current s' = Some c"
    then show "c \<notin> set (runq s') \<and> \<not> exited (threads s' c)"
      using cur_okD(1,3) [OF co, of c] ft by (auto simp: f)
  next
    fix c u assume "current s' = Some c" "joiner (threads s' u) = Some c"
    then show "exited (threads s' u)" using cur_okD(2) [OF co, of c u] n by (auto simp: f split: if_splits)
  qed
  show ?thesis using 1 2 ub ft by (auto simp: owns_def f)
qed

lemma create_inv:
  assumes o: "owns s None" and fr: "fresh s t"
    and f: "uthread_create (Some t) stack_ok thread attr start a s = Some (r, s')"
  shows "owns s' None"
proof -
  from uthread_create_cases [OF f] show ?thesis
  proof (elim disjE exE conjE)
    fix e assume "returns e s = Some (r, s')"
    then show ?thesis using o by (rule segI(2))
  next
    fix u n r0
    assume u: "Some t = Some u"
      and n: "blocked_queue n = None" "joiner n = None" "\<not> exited n"
      and rt: "returns UTHREAD_SUCCESS
             (ops_enqueue u (s\<lparr>threads := (threads s)(u := n),
                               allocated := insert u (allocated s)\<rparr>)) = Some (r0, s')"
    have "owns (ops_enqueue t (s\<lparr>threads := (threads s)(t := n),
                                 allocated := insert t (allocated s)\<rparr>)) None"
      using o fr n by (rule owns_create) (simp_all add: ops_enqueue_def)
    then show ?thesis using rt u by (auto elim!: segI(2))
  qed
qed

lemma step_inv:
  assumes o: "sched_inv s" and p: "ptr_ok s" and st: "step i l s = Some (r, s')"
  shows "sched_inv s'"
proof (cases l)
  case (Call c)
  with st have a: "api i c s = Some (r, s')" by (auto simp: step_def split: if_splits)
  show ?thesis unfolding sched_inv_owns
  proof (cases c)
    case (Create new stack_ok thread attr start ar)
    show "owns s' None"
    proof (cases new)
      case None
      then have "uthread_create None stack_ok thread attr start ar s = Some (r, s')"
        using a Create by (simp add: api_def)
      from uthread_create_cases [OF this] show ?thesis
        using o by (auto simp: sched_inv_owns elim!: segI(2))
    next
      case (Some t)
      then have "fresh s t" "uthread_create (Some t) stack_ok thread attr start ar s = Some (r, s')"
        using a Create by (auto simp: api_def split: if_splits)
      from create_inv [OF _ this] o show ?thesis by (simp add: sched_inv_owns)
    qed
  qed (use a o p in \<open>auto simp: sched_inv_owns api_def context_entry_wrapper_return_def
         dest: mutex_fns_inv [rotated] cond_fns_inv [rotated 2] sem_fns_inv [rotated]
           join_fns_inv [rotated] exit_inv [rotated] yield_inv [rotated]\<close>)
next
  case Resume
  with st have "resume i (pc s) s = Some (r, s')" by (auto simp: step_def split: if_splits)
  then show ?thesis using o p unfolding sched_inv_owns
    by (cases "pc s")
       (auto simp: resume_def elim!: segI
         dest: mutex_lock_loop_inv [unfolded sched_inv_owns, rotated] cond_relock_inv [rotated]
           cond_timedwait_loop_inv [where b = None, rotated 2] sem_fns_inv [rotated]
           sem_timedwait_resume_inv [rotated] join_fns_inv [rotated])
qed

text \<open>The invariant of executions.\<close>

definition queues_inv :: "sys \<Rightarrow> bool" where
  "queues_inv s \<longleftrightarrow> sched_inv s \<and> ptr_ok s"

lemma step_queues_inv: "queues_inv s \<Longrightarrow> step i l s = Some (r, s') \<Longrightarrow> queues_inv s'"
  unfolding queues_inv_def using step_inv step_ptr_ok by blast

lemma run_queues_inv: "queues_inv s \<Longrightarrow> run ls s = Some (es, s') \<Longrightarrow> queues_inv s'"
proof (induction ls arbitrary: s es)
  case Nil
  then show ?case by simp
next
  case (Cons a ls)
  obtain i l where a: "a = (i, l)" by (cases a)
  from Cons.prems(2) a obtain r s1 es1 where
    1: "step i l s = Some (r, s1)" and 2: "run ls s1 = Some (es1, s')"
    by (auto split: option.splits)
  from Cons.IH [OF step_queues_inv [OF Cons.prems(1) 1] 2] show ?case .
qed

lemma queues_inv_sys0: "queues_inv sys0"
  by (simp add: queues_inv_def sched_inv_def mid_def base_def wq_ok_def rq_ok_def joiners_ok_def
      cur_ok_def cur_unblocked_def ptr_ok_def sys0_def tcb0_def mutex0_def cond0_def sem0_def)


lemma create_queues_inv:
  assumes i: "queues_inv s" and fr: "fresh s t"
    and f: "uthread_create (Some t) stack_ok thread attr start a s = Some (r, s')"
  shows "queues_inv s'"
  using i create_inv [OF _ fr f] create_ptr_ok [OF _ f]
  by (simp add: queues_inv_def sched_inv_owns)

text \<open>
  The steps of \<open>uthread_sem_timedwait\<close> and \<open>uthread_cond_timedwait\<close>: the call, and
  the continuation after each \<open>scheduler_schedule\<close> inside the two functions.
\<close>

definition in_timedwait :: "context_t \<Rightarrow> label \<Rightarrow> bool" where
  "in_timedwait k l =
     (case l of
        Call (Sem_timedwait x d) \<Rightarrow> True
      | Call (Cond_timedwait c m d) \<Rightarrow> True
      | Call _ \<Rightarrow> False
      | Resume \<Rightarrow>
         (case k of
            In_sem_timedwait x d \<Rightarrow> True
          | In_cond_timedwait c m d \<Rightarrow> True
          | In_cond_timedwait_relock c m rc \<Rightarrow> True
          | _ \<Rightarrow> False))"

lemma returns_current:
  "returns e s = Some (Some x, s') \<Longrightarrow> current s' = current s"
  by (auto simp: returns_def split: option.splits)

lemma cond_relock_current:
  "cond_relock k rc nxt m s = Some (Some x, s') \<Longrightarrow> current s' = current s"
  by (auto simp: cond_relock_def dest!: returns_current stops_at_None split: option.splits if_splits)

lemma cond_timedwait_loop_current:
  "cond_timedwait_loop now nxt c m d s = Some (Some x, s') \<Longrightarrow> current s' = current s"
  by (auto simp: cond_timedwait_loop_def dest!: cond_relock_current stops_at_None
      split: option.splits if_splits)

lemma timedwait_current:
  "uthread_cond_timedwait mem now nxt cv mu d s = Some (Some x, s') \<Longrightarrow> current s' = current s"
  "sem_timedwait_loop now nxt y dl s = Some (Some x, s') \<Longrightarrow> current s' = current s"
  "sem_timedwait_resume now now2 nxt y dl s = Some (Some x, s') \<Longrightarrow> current s' = current s"
  "uthread_sem_timedwait now nxt sm d s = Some (Some x, s') \<Longrightarrow> current s' = current s"
  by (auto simp: uthread_cond_timedwait_def sem_timedwait_loop_def sem_timedwait_resume_def
      uthread_sem_timedwait_def cond_lazy_init_def Let_def
      dest!: returns_current cond_timedwait_loop_current stops_at_None
      split: option.splits if_splits sum.splits)

lemma timedwait_step_current:
  assumes "in_timedwait (pc s) l" and "step i l s = Some (Some x, s')"
  shows "current s' = current s"
proof (cases l)
  case (Call c)
  with assms(2) have "api i c s = Some (Some x, s')" by (auto simp: step_def split: if_splits)
  then show ?thesis using assms(1) Call
    by (cases c) (auto simp: api_def in_timedwait_def dest: timedwait_current)
next
  case Resume
  with assms(2) have "resume i (pc s) s = Some (Some x, s')" by (auto simp: step_def split: if_splits)
  then show ?thesis using assms(1) Resume
    by (cases "pc s")
       (auto simp: resume_def in_timedwait_def
         dest: timedwait_current cond_timedwait_loop_current cond_relock_current)
qed


text \<open>
  The main thread creates a second thread and waits on a semaphore of value 0 until time
  5; the second thread posts and yields; the main thread continues at time 9.
\<close>

definition timed_demo :: sys where
  "timed_demo = snd (the (uthread_create (Some 2) True True None (Some 7) 0 sys0))"

definition timed_demo_run :: "(inp \<times> label) list" where
  "timed_demo_run =
     [(\<lparr>i_mem = True, i_now = 0, i_now2 = 0, i_nxt = None\<rparr>, Call (Sem_init (Some 0) 0 0)),
      (\<lparr>i_mem = True, i_now = 0, i_now2 = 0, i_nxt = Some 2\<rparr>, Call (Sem_timedwait (Some 0) (Some 5))),
      (\<lparr>i_mem = True, i_now = 0, i_now2 = 0, i_nxt = None\<rparr>, Resume),
      (\<lparr>i_mem = True, i_now = 0, i_now2 = 0, i_nxt = None\<rparr>, Call (Sem_post (Some 0))),
      (\<lparr>i_mem = True, i_now = 0, i_now2 = 0, i_nxt = Some 1\<rparr>, Call Yield)]"

lemmas timed_eval =
  step_def api_def resume_def pc_def sys0_def returns_def returns_out_def returns_void_def
  stops_at_def scheduler_schedule_def uthread_create_def uthread_sem_init_def
  uthread_sem_timedwait_def sem_timedwait_loop_def sem_timedwait_resume_def uthread_sem_post_def
  UTHREAD_GUARD_SIZE_def UTHREAD_MAX_THREADS_def SIZE_MAX_def uthread_yield_def
  wait_queue_add_def wait_queue_init_def wait_queue_empty_def
  wait_queue_wake_one_def wait_queue_remove_def wait_queue_remove_specific_def
  scheduler_unblock_def ops_enqueue_def upd_thread_def upd_sem_def thread_alloc_def
  tcb0_def sem0_def UTHREAD_STACK_DEFAULT_def UTHREAD_STACK_MIN_def Let_def


section \<open>The priority policy (sched_priority.c)\<close>

text \<open>
  \<open>g_priority_state\<close>: 32 head pointers, the bitmap of the non-empty queues and the
  count.  The queues are linked through the \<open>next\<close> and \<open>prev\<close> fields of the thread
  blocks, so the state of the policy is this structure together with the thread blocks;
  \<open>timeslice_ns\<close> is \<open>g_scheduler.timeslice_ns\<close>.
\<close>

definition UTHREAD_PRIORITY_LEVELS :: nat where "UTHREAD_PRIORITY_LEVELS = 32"

record sched_priority_state =
  queues :: "nat \<Rightarrow> tid option"
  bitmap :: "32 word"
  pr_count :: "32 word"

record prio_sys =
  g_priority_state :: sched_priority_state
  tcb :: "tid \<Rightarrow> uthread_internal"
  timeslice_ns :: "64 word"

text \<open>
  \<open>find_highest_priority\<close>: the loop \<open>for (i = 31; i >= 0; i--)\<close> over the bits of the
  bitmap, here counted by \<open>i + 1\<close>; \<open>-1\<close> when no bit is set.
\<close>

fun find_bit :: "32 word \<Rightarrow> nat \<Rightarrow> int" where
  "find_bit b 0 = - 1"
| "find_bit b (Suc i) = (if b AND push_bit i 1 \<noteq> 0 then int i else find_bit b i)"

definition find_highest_priority :: "prio_sys \<Rightarrow> int" where
  "find_highest_priority s =
     (if bitmap (g_priority_state s) = 0 then - 1
      else find_bit (bitmap (g_priority_state s)) UTHREAD_PRIORITY_LEVELS)"

text \<open>
  \<open>add_to_priority_queue\<close>.  The walk \<open>while (tail->next != NULL)\<close> to the end of the
  queue does not end on a cyclic list.
\<close>

partial_function (option) find_tail :: "(tid \<Rightarrow> uthread_internal) \<Rightarrow> tid \<Rightarrow> tid option" where
  "find_tail h t = (case t_next (h t) of None \<Rightarrow> Some t | Some n \<Rightarrow> find_tail h n)"

definition add_to_priority_queue :: "tid \<Rightarrow> nat \<Rightarrow> prio_sys \<Rightarrow> prio_sys option" where
  "add_to_priority_queue thread p s =
     (let g = g_priority_state s;
          h1 = (tcb s)(thread := (tcb s thread)\<lparr>t_next := None\<rparr>)
      in case queues g p of
           None \<Rightarrow>
             Some (s\<lparr>tcb := h1(thread := (h1 thread)\<lparr>t_prev := None\<rparr>),
                     g_priority_state := g\<lparr>queues := (queues g)(p := Some thread),
                                           bitmap := bitmap g OR push_bit p 1\<rparr>\<rparr>)
         | Some first \<Rightarrow>
             (case find_tail h1 first of
                None \<Rightarrow> None
              | Some tail \<Rightarrow>
                  let h2 = h1(tail := (h1 tail)\<lparr>t_next := Some thread\<rparr>)
                  in Some (s\<lparr>tcb := h2(thread := (h2 thread)\<lparr>t_prev := Some tail\<rparr>)\<rparr>)))"

definition remove_from_priority_queue :: "tid \<Rightarrow> nat \<Rightarrow> prio_sys \<Rightarrow> prio_sys" where
  "remove_from_priority_queue thread p s =
     (let g = g_priority_state s;
          h = tcb s;
          h1 = (case t_prev (h thread) of
                  Some pv \<Rightarrow> h(pv := (h pv)\<lparr>t_next := t_next (h thread)\<rparr>)
                | None \<Rightarrow> h);
          q1 = (case t_prev (h thread) of
                  Some pv \<Rightarrow> queues g
                | None \<Rightarrow> (queues g)(p := t_next (h thread)));
          h2 = (case t_next (h1 thread) of
                  Some n \<Rightarrow> h1(n := (h1 n)\<lparr>t_prev := t_prev (h1 thread)\<rparr>)
                | None \<Rightarrow> h1);
          h3 = h2(thread := (h2 thread)\<lparr>t_next := None, t_prev := None\<rparr>);
          b1 = (if q1 p = None then bitmap g AND NOT (push_bit p 1) else bitmap g)
      in s\<lparr>tcb := h3, g_priority_state := g\<lparr>queues := q1, bitmap := b1\<rparr>\<rparr>)"

definition priority_init :: "prio_sys \<Rightarrow> prio_sys" where
  "priority_init s =
     s\<lparr>g_priority_state := \<lparr>queues = (\<lambda>_. None), bitmap = 0, pr_count = 0\<rparr>\<rparr>"

text \<open>The two clamping statements at the start of \<open>priority_enqueue\<close>.\<close>

definition clamp_priority :: "int \<Rightarrow> nat" where
  "clamp_priority pr =
     (let p1 = (if pr < 0 then 0 else pr);
          p2 = (if p1 \<ge> int UTHREAD_PRIORITY_LEVELS then int UTHREAD_PRIORITY_LEVELS - 1 else p1)
      in nat p2)"

definition priority_enqueue :: "tid option \<Rightarrow> prio_sys \<Rightarrow> prio_sys option" where
  "priority_enqueue thread s =
     (case thread of None \<Rightarrow> Some s
      | Some t \<Rightarrow>
         (case add_to_priority_queue t (clamp_priority (priority (tcb s t))) s of
            None \<Rightarrow> None
          | Some s1 \<Rightarrow>
             Some (s1\<lparr>g_priority_state :=
                        (g_priority_state s1)\<lparr>pr_count := pr_count (g_priority_state s1) + 1\<rparr>,
                      tcb := (tcb s1)(t := (tcb s1 t)\<lparr>timeslice_remaining := timeslice_ns s1\<rparr>)\<rparr>)))"

definition priority_dequeue :: "prio_sys \<Rightarrow> tid option \<times> prio_sys" where
  "priority_dequeue s =
     (let highest = find_highest_priority s
      in if highest < 0 then (None, s)
         else
           (case queues (g_priority_state s) (nat highest) of
              None \<Rightarrow> (None, s)
            | Some t \<Rightarrow>
               let s1 = remove_from_priority_queue t (nat highest) s
               in (Some t, s1\<lparr>g_priority_state :=
                        (g_priority_state s1)\<lparr>pr_count := pr_count (g_priority_state s1) - 1\<rparr>\<rparr>)))"

text \<open>
  The queues as lists.  \<open>dlist h p pv xs\<close>: following \<open>next\<close> from \<open>p\<close> visits exactly
  \<open>xs\<close> and ends in \<open>NULL\<close>, and each \<open>prev\<close> points back (\<open>pv\<close> for the first).
  \<open>prio_abs s Q\<close>: queue \<open>i\<close> holds the threads \<open>Q i\<close> in this order, no thread is
  queued twice, bit \<open>i\<close> of the bitmap is set exactly when queue \<open>i\<close> is non-empty, and
  every queued thread is in the queue of its clamped priority.
\<close>

primrec dlist :: "(tid \<Rightarrow> uthread_internal) \<Rightarrow> tid option \<Rightarrow> tid option \<Rightarrow> tid list \<Rightarrow> bool" where
  "dlist h p pv [] \<longleftrightarrow> p = None"
| "dlist h p pv (a # as) \<longleftrightarrow> p = Some a \<and> t_prev (h a) = pv \<and> dlist h (t_next (h a)) (Some a) as"

definition prio_abs :: "prio_sys \<Rightarrow> (nat \<Rightarrow> tid list) \<Rightarrow> bool" where
  "prio_abs s Q \<longleftrightarrow>
     (\<forall>i < UTHREAD_PRIORITY_LEVELS. dlist (tcb s) (queues (g_priority_state s) i) None (Q i))
   \<and> (\<forall>i < UTHREAD_PRIORITY_LEVELS. \<forall>j < UTHREAD_PRIORITY_LEVELS. i \<noteq> j \<longrightarrow> set (Q i) \<inter> set (Q j) = {})
   \<and> (\<forall>i < UTHREAD_PRIORITY_LEVELS. distinct (Q i))
   \<and> (\<forall>i < UTHREAD_PRIORITY_LEVELS. bit (bitmap (g_priority_state s)) i \<longleftrightarrow> Q i \<noteq> [])
   \<and> (\<forall>i < UTHREAD_PRIORITY_LEVELS. \<forall>t \<in> set (Q i). clamp_priority (priority (tcb s t)) = i)"

lemma test_bit:
  "(b AND push_bit i 1 = 0) = (\<not> bit b i)"
  "(b AND 2 ^ i = 0) = (\<not> bit b i)" for b :: "32 word"
  by (simp_all add: push_bit_of_1 and_exp_eq_0_iff_not_bit)

lemma find_bit_none: "find_bit b n = - 1 \<longleftrightarrow> (\<forall>i<n. \<not> bit b i)"
  by (induction n) (auto simp: test_bit less_Suc_eq)

lemma find_bit_some:
  "(\<exists>i<n. bit b i) \<Longrightarrow> \<exists>k<n. find_bit b n = int k \<and> bit b k \<and> (\<forall>j. k < j \<and> j < n \<longrightarrow> \<not> bit b j)"
proof (induction n)
  case 0
  then show ?case by simp
next
  case (Suc n)
  show ?case
  proof (cases "bit b n")
    case True
    then show ?thesis by (auto simp: test_bit intro!: exI [of _ n])
  next
    case False
    with Suc.prems have "\<exists>i<n. bit b i" by (auto simp: less_Suc_eq)
    from Suc.IH [OF this] obtain k where "k < n" "find_bit b n = int k" "bit b k"
      "\<forall>j. k < j \<and> j < n \<longrightarrow> \<not> bit b j" by blast
    then show ?thesis using False by (auto simp: test_bit less_Suc_eq intro!: exI [of _ k])
  qed
qed

lemma dlist_upd [simp]: "u \<notin> set xs \<Longrightarrow> dlist (h(u := v)) p pv xs = dlist h p pv xs"
  by (induction xs arbitrary: p pv) auto

lemma find_tail_dlist:
  "dlist h (Some a) pv (a # as) \<Longrightarrow> find_tail h a = Some (last (a # as))"
proof (induction as arbitrary: a pv)
  case Nil
  then show ?case by (subst find_tail.simps) simp
next
  case (Cons b bs)
  from Cons.prems have n: "t_next (h a) = Some b" and d: "dlist h (Some b) (Some a) (b # bs)" by auto
  show ?case using Cons.IH [OF d] n by (subst find_tail.simps) simp
qed

lemma clamp_priority_less [simp]: "clamp_priority pr < UTHREAD_PRIORITY_LEVELS"
  by (auto simp: clamp_priority_def UTHREAD_PRIORITY_LEVELS_def Let_def)

lemma prio_absI:
  assumes "\<And>i. i < UTHREAD_PRIORITY_LEVELS \<Longrightarrow> dlist (tcb s) (queues (g_priority_state s) i) None (Q i)"
    and "\<And>i j. i < UTHREAD_PRIORITY_LEVELS \<Longrightarrow> j < UTHREAD_PRIORITY_LEVELS \<Longrightarrow> i \<noteq> j \<Longrightarrow>
           set (Q i) \<inter> set (Q j) = {}"
    and "\<And>i. i < UTHREAD_PRIORITY_LEVELS \<Longrightarrow> distinct (Q i)"
    and "\<And>i. i < UTHREAD_PRIORITY_LEVELS \<Longrightarrow> bit (bitmap (g_priority_state s)) i \<longleftrightarrow> Q i \<noteq> []"
    and "\<And>i t. i < UTHREAD_PRIORITY_LEVELS \<Longrightarrow> t \<in> set (Q i) \<Longrightarrow>
           clamp_priority (priority (tcb s t)) = i"
  shows "prio_abs s Q"
  using assms unfolding prio_abs_def by blast

lemma prio_absD:
  assumes "prio_abs s Q" and "i < UTHREAD_PRIORITY_LEVELS"
  shows "dlist (tcb s) (queues (g_priority_state s) i) None (Q i)"
    and "j < UTHREAD_PRIORITY_LEVELS \<Longrightarrow> i \<noteq> j \<Longrightarrow> set (Q i) \<inter> set (Q j) = {}"
    and "distinct (Q i)"
    and "bit (bitmap (g_priority_state s)) i \<longleftrightarrow> Q i \<noteq> []"
    and "t \<in> set (Q i) \<Longrightarrow> clamp_priority (priority (tcb s t)) = i"
  using assms unfolding prio_abs_def by blast+

lemma dlist_cong:
  "dlist h p pv xs \<Longrightarrow>
   (\<And>u. u \<in> set xs \<Longrightarrow> t_next (h' u) = t_next (h u) \<and> t_prev (h' u) = t_prev (h u)) \<Longrightarrow>
   dlist h' p pv xs"
  by (induction xs arbitrary: p pv) auto

lemma dlist_snoc:
  "dlist h p pv xs \<Longrightarrow> xs \<noteq> [] \<Longrightarrow> t \<notin> set xs \<Longrightarrow> distinct xs \<Longrightarrow>
   (\<And>u. u \<in> set xs \<Longrightarrow> u \<noteq> last xs \<Longrightarrow> t_next (h' u) = t_next (h u)) \<Longrightarrow>
   (\<And>u. u \<in> set xs \<Longrightarrow> t_prev (h' u) = t_prev (h u)) \<Longrightarrow>
   t_next (h' (last xs)) = Some t \<Longrightarrow> t_prev (h' t) = Some (last xs) \<Longrightarrow> t_next (h' t) = None \<Longrightarrow>
   dlist h' p pv (xs @ [t])"
proof (induction xs arbitrary: p pv)
  case Nil
  then show ?case by simp
next
  case (Cons a as)
  show ?case
  proof (cases "as = []")
    case True
    then show ?thesis using Cons.prems by simp
  next
    case False
    then have l: "last (a # as) = last as" and al: "a \<noteq> last as"
      using Cons.prems(4) by auto
    have "dlist h' (t_next (h a)) (Some a) (as @ [t])"
      using Cons.prems False l by (intro Cons.IH) auto
    moreover have "t_next (h' a) = t_next (h a)" using Cons.prems(5) [of a] l al by simp
    moreover have "t_prev (h' a) = t_prev (h a)" using Cons.prems(6) [of a] by simp
    ultimately show ?thesis using Cons.prems(1) by simp
  qed
qed

lemma dlist_tail:
  "dlist h (Some a) pv (a # as) \<Longrightarrow> distinct (a # as) \<Longrightarrow>
   (\<And>u. u \<in> set as \<Longrightarrow> t_next (h' u) = t_next (h u)) \<Longrightarrow>
   (\<And>u. u \<in> set as \<Longrightarrow> u \<noteq> hd as \<Longrightarrow> t_prev (h' u) = t_prev (h u)) \<Longrightarrow>
   (as \<noteq> [] \<Longrightarrow> t_prev (h' (hd as)) = pv) \<Longrightarrow>
   dlist h' (t_next (h a)) pv as"
proof (cases as)
  case Nil
  assume "dlist h (Some a) pv (a # as)"
  then show ?thesis using Nil by simp
next
  case (Cons b bs)
  assume d: "dlist h (Some a) pv (a # as)" and di: "distinct (a # as)"
    and n: "\<And>u. u \<in> set as \<Longrightarrow> t_next (h' u) = t_next (h u)"
    and p: "\<And>u. u \<in> set as \<Longrightarrow> u \<noteq> hd as \<Longrightarrow> t_prev (h' u) = t_prev (h u)"
    and q: "as \<noteq> [] \<Longrightarrow> t_prev (h' (hd as)) = pv"
  from d Cons have 1: "t_next (h a) = Some b" and 2: "dlist h (t_next (h b)) (Some b) bs" by auto
  have "dlist h' (t_next (h b)) (Some b) bs"
    using 2 n p di Cons by (intro dlist_cong [OF 2]) auto
  then show ?thesis using 1 q n [of b] Cons by simp
qed

text \<open>
  \<open>priority_init\<close> leaves all queues empty, and \<open>priority_enqueue\<close> of a thread that
  is not queued appends it to the queue of its clamped priority.
\<close>

lemma priority_init_abs: "prio_abs (priority_init s) (\<lambda>_. [])"
  by (simp add: prio_abs_def priority_init_def)

lemma bit_set_clear:
  "p < UTHREAD_PRIORITY_LEVELS \<Longrightarrow> i < UTHREAD_PRIORITY_LEVELS \<Longrightarrow>
     bit (b OR push_bit p 1) i = (bit b i \<or> i = p)"
  "p < UTHREAD_PRIORITY_LEVELS \<Longrightarrow> i < UTHREAD_PRIORITY_LEVELS \<Longrightarrow>
     bit (b AND NOT (push_bit p 1)) i = (bit b i \<and> i \<noteq> p)"
  "p < UTHREAD_PRIORITY_LEVELS \<Longrightarrow> i < UTHREAD_PRIORITY_LEVELS \<Longrightarrow>
     bit (b OR 2 ^ p) i = (bit b i \<or> i = p)"
  "p < UTHREAD_PRIORITY_LEVELS \<Longrightarrow> i < UTHREAD_PRIORITY_LEVELS \<Longrightarrow>
     bit (b AND NOT (2 ^ p)) i = (bit b i \<and> i \<noteq> p)" for b :: "32 word"
  by (auto simp: bit_simps UTHREAD_PRIORITY_LEVELS_def)

lemma priority_enqueue_abs:
  assumes a: "prio_abs s Q" and nq: "\<And>i. i < UTHREAD_PRIORITY_LEVELS \<Longrightarrow> t \<notin> set (Q i)"
    and lv: "lvl = clamp_priority (priority (tcb s t))"
  shows "\<exists>s'. priority_enqueue (Some t) s = Some s' \<and> prio_abs s' (Q(lvl := Q lvl @ [t]))
           \<and> (\<forall>u. priority (tcb s' u) = priority (tcb s u))"
proof -
  let ?g = "g_priority_state s" and ?h = "tcb s"
  have l: "lvl < UTHREAD_PRIORITY_LEVELS" by (simp add: lv)
  note d = prio_absD [OF a]
  show ?thesis
  proof (cases "Q lvl")
    case Nil
    then have qn: "queues ?g lvl = None" using d(1) [OF l] by simp
    define h' where "h' = ?h(t := (?h t)\<lparr>t_next := None, t_prev := None,
                                 timeslice_remaining := timeslice_ns s\<rparr>)"
    define s' where "s' = s\<lparr>tcb := h',
        g_priority_state := ?g\<lparr>queues := (queues ?g)(lvl := Some t),
                                bitmap := bitmap ?g OR push_bit lvl 1,
                                pr_count := pr_count ?g + 1\<rparr>\<rparr>"
    have e: "priority_enqueue (Some t) s = Some s'"
      by (simp add: priority_enqueue_def add_to_priority_queue_def Let_def qn lv [symmetric]
          s'_def h'_def)
    have f: "tcb s' = h'" "queues (g_priority_state s') = (queues ?g)(lvl := Some t)"
      "bitmap (g_priority_state s') = bitmap ?g OR push_bit lvl 1"
      by (simp_all add: s'_def)
    have hp: "priority (h' u) = priority (?h u)" for u by (simp add: h'_def)
    have "prio_abs s' (Q(lvl := Q lvl @ [t]))"
    proof (rule prio_absI)
      fix i assume i: "i < UTHREAD_PRIORITY_LEVELS"
      show "dlist (tcb s') (queues (g_priority_state s') i) None ((Q(lvl := Q lvl @ [t])) i)"
      proof (cases "i = lvl")
        case True
        then show ?thesis by (simp add: f Nil h'_def)
      next
        case False
        then show ?thesis using d(1) [OF i] nq [OF i] by (simp add: f h'_def)
      qed
      show "distinct ((Q(lvl := Q lvl @ [t])) i)" using d(3) [OF i] Nil by simp
      show "bit (bitmap (g_priority_state s')) i \<longleftrightarrow> (Q(lvl := Q lvl @ [t])) i \<noteq> []"
        using d(4) [OF i] by (simp add: f bit_set_clear l i)
      show "clamp_priority (priority (tcb s' u)) = i" if "u \<in> set ((Q(lvl := Q lvl @ [t])) i)" for u
        using that d(5) [OF i, of u] lv Nil by (auto simp: f hp split: if_splits)
    next
      fix i j assume "i < UTHREAD_PRIORITY_LEVELS" "j < UTHREAD_PRIORITY_LEVELS" "i \<noteq> j"
      then show "set ((Q(lvl := Q lvl @ [t])) i) \<inter> set ((Q(lvl := Q lvl @ [t])) j) = {}"
        using d(2) [of i j] nq [of i] nq [of j] Nil by auto
    qed
    with e hp f(1) show ?thesis by simp
  next
    case (Cons a as)
    let ?xs = "a # as"
    have tx: "t \<notin> set ?xs" using nq [OF l] Cons by simp
    have dx: "dlist ?h (Some a) None ?xs" and qh: "queues ?g lvl = Some a"
      using d(1) [OF l] Cons by auto
    define tl where "tl = last ?xs"
    have tlx: "tl \<in> set ?xs" unfolding tl_def by (rule last_in_set) simp
    then have tlt: "tl \<noteq> t" using tx by auto
    let ?h1 = "?h(t := (?h t)\<lparr>t_next := None\<rparr>)"
    have "dlist ?h1 (Some a) None ?xs" using dx tx by (simp del: dlist.simps)
    then have ft: "find_tail ?h1 a = Some tl" unfolding tl_def by (rule find_tail_dlist)
    define h' where "h' = (?h(tl := (?h tl)\<lparr>t_next := Some t\<rparr>))
                            (t := (?h t)\<lparr>t_next := None, t_prev := Some tl,
                                        timeslice_remaining := timeslice_ns s\<rparr>)"
    define s' where "s' = s\<lparr>tcb := h', g_priority_state := ?g\<lparr>pr_count := pr_count ?g + 1\<rparr>\<rparr>"
    have e: "priority_enqueue (Some t) s = Some s'"
      using tlt
      by (simp add: priority_enqueue_def add_to_priority_queue_def Let_def qh ft lv [symmetric]
          s'_def h'_def fun_upd_twist)
    have f: "tcb s' = h'" "queues (g_priority_state s') = queues ?g"
      "bitmap (g_priority_state s') = bitmap ?g"
      by (simp_all add: s'_def)
    have hp: "priority (h' u) = priority (?h u)" for u by (simp add: h'_def)
    have hs: "h' u = ?h u" if "u \<noteq> t" "u \<noteq> tl" for u using that by (simp add: h'_def)
    have "prio_abs s' (Q(lvl := Q lvl @ [t]))"
    proof (rule prio_absI)
      fix i assume i: "i < UTHREAD_PRIORITY_LEVELS"
      show "dlist (tcb s') (queues (g_priority_state s') i) None ((Q(lvl := Q lvl @ [t])) i)"
      proof (cases "i = lvl")
        case True
        have "dlist h' (Some a) None (?xs @ [t])"
        proof (rule dlist_snoc [OF dx _ tx])
          show "distinct ?xs" using d(3) [OF l] Cons by simp
          show "t_next (h' u) = t_next (?h u)" if "u \<in> set ?xs" "u \<noteq> last ?xs" for u
          proof -
            have "u \<noteq> t" using that(1) tx by auto
            moreover have "u \<noteq> tl" using that(2) by (simp only: tl_def) simp
            ultimately show ?thesis by (simp add: hs)
          qed
          show "t_prev (h' u) = t_prev (?h u)" if "u \<in> set ?xs" for u
            using that tx by (auto simp: h'_def)
          show "t_next (h' (last ?xs)) = Some t"
            unfolding tl_def [symmetric] using tlt by (simp add: h'_def)
          show "t_prev (h' t) = Some (last ?xs)"
            unfolding tl_def [symmetric] by (simp add: h'_def)
          show "t_next (h' t) = None" by (simp add: h'_def)
        qed simp
        then show ?thesis using True by (simp add: f Cons qh)
      next
        case False
        have "tl \<notin> set (Q i)" using d(2) [OF l i] False tlx Cons by auto
        then have "h' u = ?h u" if "u \<in> set (Q i)" for u
          using that nq [OF i] by (intro hs) auto
        then have "dlist h' (queues ?g i) None (Q i)"
          by (intro dlist_cong [OF d(1) [OF i]]) simp
        then show ?thesis using False by (simp add: f)
      qed
      show "distinct ((Q(lvl := Q lvl @ [t])) i)" using d(3) [OF i] nq [OF i] by auto
      show "bit (bitmap (g_priority_state s')) i \<longleftrightarrow> (Q(lvl := Q lvl @ [t])) i \<noteq> []"
        using d(4) [OF i] Cons by (auto simp: f)
      show "clamp_priority (priority (tcb s' u)) = i" if "u \<in> set ((Q(lvl := Q lvl @ [t])) i)" for u
        using that d(5) [OF i, of u] lv by (auto simp: f hp split: if_splits)
    next
      fix i j assume "i < UTHREAD_PRIORITY_LEVELS" "j < UTHREAD_PRIORITY_LEVELS" "i \<noteq> j"
      then show "set ((Q(lvl := Q lvl @ [t])) i) \<inter> set ((Q(lvl := Q lvl @ [t])) j) = {}"
        using d(2) [of i j] nq [of i] nq [of j] by auto
    qed
    with e hp f(1) show ?thesis by simp
  qed
qed

lemma find_highest_none:
  assumes a: "prio_abs s Q" and e: "\<And>i. i < UTHREAD_PRIORITY_LEVELS \<Longrightarrow> Q i = []"
  shows "find_highest_priority s = - 1"
proof -
  have "\<forall>i<UTHREAD_PRIORITY_LEVELS. \<not> bit (bitmap (g_priority_state s)) i"
    using prio_absD(4) [OF a] e by simp
  then show ?thesis by (simp add: find_highest_priority_def find_bit_none)
qed

lemma find_highest_some:
  assumes a: "prio_abs s Q" and e: "i < UTHREAD_PRIORITY_LEVELS" "Q i \<noteq> []"
  shows "\<exists>k<UTHREAD_PRIORITY_LEVELS. find_highest_priority s = int k \<and> Q k \<noteq> []
           \<and> (\<forall>j<UTHREAD_PRIORITY_LEVELS. k < j \<longrightarrow> Q j = [])"
proof -
  let ?b = "bitmap (g_priority_state s)"
  have bi: "bit ?b i" using prio_absD(4) [OF a e(1)] e(2) by simp
  then have nz: "?b \<noteq> 0" by auto
  from bi e(1) have "\<exists>i<UTHREAD_PRIORITY_LEVELS. bit ?b i" by blast
  from find_bit_some [OF this] obtain k where k: "k < UTHREAD_PRIORITY_LEVELS"
    "find_bit ?b UTHREAD_PRIORITY_LEVELS = int k" "bit ?b k"
    "\<forall>j. k < j \<and> j < UTHREAD_PRIORITY_LEVELS \<longrightarrow> \<not> bit ?b j" by blast
  have "Q k \<noteq> []" using prio_absD(4) [OF a k(1)] k(3) by simp
  moreover have "Q j = []" if "j < UTHREAD_PRIORITY_LEVELS" "k < j" for j
    using prio_absD(4) [OF a that(1)] k(4) that by auto
  ultimately show ?thesis using k(1,2) nz by (auto simp: find_highest_priority_def)
qed

lemma remove_head_abs:
  assumes a: "prio_abs s Q" and k: "k < UTHREAD_PRIORITY_LEVELS" and q: "Q k = t # as"
  shows "prio_abs (remove_from_priority_queue t k s) (Q(k := as))"
proof -
  let ?g = "g_priority_state s" and ?h = "tcb s"
  note d = prio_absD [OF a]
  have dx: "dlist ?h (Some t) None (t # as)" and qh: "queues ?g k = Some t"
    using d(1) [OF k] q by auto
  then have pv: "t_prev (?h t) = None" by simp
  have di: "distinct (t # as)" using d(3) [OF k] q by simp
  define nx where "nx = t_next (?h t)"
  have nx: "nx = (case as of [] \<Rightarrow> None | b # bs \<Rightarrow> Some b)"
    using dx by (cases as) (auto simp: nx_def)
  define h' where "h' = (case nx of Some n \<Rightarrow> ?h(n := (?h n)\<lparr>t_prev := None\<rparr>) | None \<Rightarrow> ?h)
                          (t := (?h t)\<lparr>t_next := None, t_prev := None\<rparr>)"
  define s' where "s' = s\<lparr>tcb := h',
      g_priority_state := ?g\<lparr>queues := (queues ?g)(k := nx),
         bitmap := (if nx = None then bitmap ?g AND NOT (push_bit k 1) else bitmap ?g)\<rparr>\<rparr>"
  have tn: "nx \<noteq> Some t" using nx di by (cases as) auto
  have e: "remove_from_priority_queue t k s = s'"
    using tn
    by (cases nx)
       (auto simp: remove_from_priority_queue_def Let_def pv nx_def [symmetric] s'_def h'_def)
  have f: "tcb s' = h'" "queues (g_priority_state s') = (queues ?g)(k := nx)"
    "bitmap (g_priority_state s') = (if nx = None then bitmap ?g AND NOT (push_bit k 1) else bitmap ?g)"
    by (simp_all add: s'_def)
  have hp: "priority (h' u) = priority (?h u)" for u by (cases nx) (simp_all add: h'_def)
  have hn: "t_next (h' u) = t_next (?h u)" if "u \<noteq> t" for u
    using that by (cases nx) (simp_all add: h'_def)
  have hv: "t_prev (h' u) = t_prev (?h u)" if "u \<noteq> t" "nx \<noteq> Some u" for u
    using that by (cases nx) (simp_all add: h'_def)
  have hh: "t_prev (h' (hd as)) = None" if "as \<noteq> []"
    using that nx di by (cases as) (auto simp: h'_def)
  have "prio_abs s' (Q(k := as))"
  proof (rule prio_absI)
    fix i assume i: "i < UTHREAD_PRIORITY_LEVELS"
    show "dlist (tcb s') (queues (g_priority_state s') i) None ((Q(k := as)) i)"
    proof (cases "i = k")
      case True
      have "dlist h' (t_next (?h t)) None as"
      proof (rule dlist_tail [OF dx di])
        show "t_next (h' u) = t_next (?h u)" if "u \<in> set as" for u using that di by (intro hn) auto
        show "t_prev (h' u) = t_prev (?h u)" if "u \<in> set as" "u \<noteq> hd as" for u
          using that di nx by (intro hv) (auto split: list.splits)
        show "as \<noteq> [] \<Longrightarrow> t_prev (h' (hd as)) = None" by (rule hh)
      qed
      then show ?thesis using True by (simp add: f nx_def)
    next
      case False
      have ti: "t \<notin> set (Q i)" using d(2) [OF k i] False q by auto
      have ni: "nx \<noteq> Some u" if "u \<in> set (Q i)" for u
        using d(2) [OF k i] False q nx that by (cases as) auto
      have "t_next (h' u) = t_next (?h u) \<and> t_prev (h' u) = t_prev (?h u)" if "u \<in> set (Q i)" for u
      proof -
        have "u \<noteq> t" using that ti by auto
        then show ?thesis using ni [OF that] by (simp add: hn hv)
      qed
      then have "dlist h' (queues ?g i) None (Q i)"
        by (intro dlist_cong [OF d(1) [OF i]])
      then show ?thesis using False by (simp add: f)
    qed
    show "distinct ((Q(k := as)) i)" using d(3) [OF i] di by auto
    show "bit (bitmap (g_priority_state s')) i \<longleftrightarrow> (Q(k := as)) i \<noteq> []"
      using d(4) [OF i] nx q by (cases as) (auto simp: f bit_set_clear k i)
    show "clamp_priority (priority (tcb s' u)) = i" if "u \<in> set ((Q(k := as)) i)" for u
      using that d(5) [OF i, of u] q by (auto simp: f hp split: if_splits)
  next
    fix i j assume "i < UTHREAD_PRIORITY_LEVELS" "j < UTHREAD_PRIORITY_LEVELS" "i \<noteq> j"
    then show "set ((Q(k := as)) i) \<inter> set ((Q(k := as)) j) = {}"
      using d(2) [of i j] q by (auto split: if_splits)
  qed
  with e show ?thesis by simp
qed

lemma prio_abs_count:
  "prio_abs (s\<lparr>g_priority_state := (g_priority_state s)\<lparr>pr_count := c\<rparr>\<rparr>) Q = prio_abs s Q"
  by (simp add: prio_abs_def)

lemma clamp_priority_bounds:
  "pr < int UTHREAD_PRIORITY_LEVELS \<Longrightarrow> pr \<le> int (clamp_priority pr)"
  "0 \<le> pr \<Longrightarrow> int (clamp_priority pr) \<le> pr"
  by (auto simp: clamp_priority_def UTHREAD_PRIORITY_LEVELS_def Let_def)


text \<open>
  Threads 5 (priority 10), 6 and 7 (priority 20) are enqueued in this order; the first
  \<open>priority_dequeue\<close> returns thread 6.
\<close>

definition prio_demo :: prio_sys where
  "prio_demo =
     priority_init
       \<lparr>g_priority_state = \<lparr>queues = (\<lambda>_. None), bitmap = 0, pr_count = 0\<rparr>,
        tcb = (\<lambda>_. tcb0)(5 := tcb0\<lparr>priority := 10\<rparr>, 6 := tcb0\<lparr>priority := 20\<rparr>,
                         7 := tcb0\<lparr>priority := 20\<rparr>),
        timeslice_ns = 10000000\<rparr>"


lemma find_bit_numeral: "find_bit b (numeral n) = (if b AND push_bit (pred_numeral n) 1 \<noteq> 0 then int (pred_numeral n) else find_bit b (pred_numeral n))"
  by (simp add: numeral_eq_Suc)

lemma prio_demo_eval:
  "fst (priority_dequeue (the (priority_enqueue (Some 7) (the (priority_enqueue (Some 6)
           (the (priority_enqueue (Some 5) prio_demo))))))) = Some 6"
  by (simp add: prio_demo_def priority_init_def priority_enqueue_def add_to_priority_queue_def
      priority_dequeue_def find_highest_priority_def remove_from_priority_queue_def
      clamp_priority_def UTHREAD_PRIORITY_LEVELS_def find_tail.simps tcb0_def Let_def
      find_bit_numeral)

text \<open>
  Priorities above the range: \<open>uthread_create\<close> copies the attribute's priority
  unchecked, so a thread of priority 35 and one of priority 40 can be handed to
  \<open>priority_enqueue\<close>.  Both are queued at level 31, and the thread of priority 35,
  enqueued first, is returned while the thread of priority 40 is queued.
\<close>

definition prio_above :: prio_sys where
  "prio_above =
     priority_init
       \<lparr>g_priority_state = \<lparr>queues = (\<lambda>_. None), bitmap = 0, pr_count = 0\<rparr>,
        tcb = (\<lambda>_. tcb0)(5 := tcb0\<lparr>priority := 35\<rparr>, 6 := tcb0\<lparr>priority := 40\<rparr>),
        timeslice_ns = 10000000\<rparr>"

definition prio_above_queued :: prio_sys where
  "prio_above_queued =
     the (priority_enqueue (Some 6) (the (priority_enqueue (Some 5) prio_above)))"


end
